theory Spec2Isabelle
  imports Main "HOL-Library.Word" "HOL-Library.Sublist"
begin

unbundle bit_operations_syntax

section \<open>Errors, the pull source and the stream\<close>

text \<open>
  Modelled from the spec: the error kinds of the library (section 7 of the specification);
  \<open>stream-read.c\<close> itself names \<open>FZ_ERROR_GENERIC\<close> and \<open>FZ_ERROR_TRYLATER\<close>.  An
  exception thrown with \<open>fz_throw\<close> is the pair of its code and its message.
\<close>

datatype fz_error_code = FZ_ERROR_MEMORY | FZ_ERROR_GENERIC | FZ_ERROR_TRYLATER

type_synonym fz_error = "fz_error_code \<times> string"

type_synonym byte = "8 word"

text \<open>
  Modelled from the spec: the Pull Source (sections 4.1 and 6).  The source is external to
  \<open>stream-read.c\<close>; here it is the finite script of the answers it will give, one per
  pull: a non-empty block of bytes (its first byte and the rest) or a thrown error.  When
  the script is used up the source is at its end.  A script is finite, so every stream
  ends; a source that never ends is outside the model.
\<close>

datatype pull = Data byte "byte list" | Fail fz_error

text \<open>
  The stream state that \<open>stream-read.c\<close> reads and writes: \<open>window\<close> holds the bytes
  between \<open>rp\<close> and \<open>wp\<close>, \<open>pos\<close> is the offset of the byte at \<open>wp\<close>, \<open>eof\<close> the sticky
  end flag, \<open>avail\<close> the bit accumulator's count.  \<open>pos\<close> is an integer; where \<open>fz_seek\<close>
  computes with an \<open>int64_t\<close> offset, the wrap-around is written out there.
\<close>

record fz_stream =
  window :: "byte list"
  pos :: int
  eof :: bool
  avail :: int
  source :: "pull list"

text \<open>
  Every operation may throw; the stream keeps whatever was consumed before the throw.  So
  an operation returns its outcome (\<open>Inl\<close> the exception) together with the stream.
\<close>

type_synonym 'a result = "(fz_error + 'a) \<times> fz_stream"

definition seq :: "'a result \<Rightarrow> ('a \<Rightarrow> fz_stream \<Rightarrow> 'b result) \<Rightarrow> 'b result" where
  "seq r f = (case r of (Inl e, s) \<Rightarrow> (Inl e, s) | (Inr a, s) \<Rightarrow> f a s)"

abbreviation EOF :: int where
  "EOF \<equiv> - 1"

text \<open>
  Modelled from the spec: \<open>fz_available\<close>, the \<open>fill(minBytes) -> bytesAvailable\<close>
  capability of section 4.1 (an inline function of the stream header, which is not among
  the source files).  It reports the bytes of the window; when the window is empty it pulls
  once from the source, which extends the window, throws, or is at its end (then the sticky
  flag is set and 0 is returned).
\<close>

definition fz_available :: "fz_stream \<Rightarrow> nat \<Rightarrow> nat result" where
  "fz_available stm max_len =
     (if window stm \<noteq> [] then (Inr (length (window stm)), stm)
      else if eof stm then (Inr 0, stm)
      else (case source stm of
              [] \<Rightarrow> (Inr 0, stm\<lparr>eof := True\<rparr>)
            | Fail e # ps \<Rightarrow> (Inl e, stm\<lparr>source := ps\<rparr>)
            | Data c cs # ps \<Rightarrow>
                (Inr (Suc (length cs)),
                 stm\<lparr>window := c # cs, pos := pos stm + 1 + int (length cs), source := ps\<rparr>)))"

text \<open>
  Modelled from the spec: \<open>fz_read_byte\<close>, the single-byte read of section 6 (also an
  inline function of the stream header).  It returns the next byte as an \<open>int\<close> in
  \<open>0..255\<close>, or \<open>EOF\<close>.
\<close>

definition fz_read_byte :: "fz_stream \<Rightarrow> int result" where
  "fz_read_byte stm =
     (case window stm of
        c # cs \<Rightarrow> (Inr (uint c), stm\<lparr>window := cs\<rparr>)
      | [] \<Rightarrow>
          if eof stm then (Inr EOF, stm)
          else (case source stm of
                  [] \<Rightarrow> (Inr EOF, stm\<lparr>eof := True\<rparr>)
                | Fail e # ps \<Rightarrow> (Inl e, stm\<lparr>source := ps\<rparr>)
                | Data c cs # ps \<Rightarrow>
                    (Inr (uint c),
                     stm\<lparr>window := cs, pos := pos stm + 1 + int (length cs), source := ps\<rparr>)))"

text \<open>
  Modelled from the spec: \<open>fz_peek_byte\<close>, the non-consuming one-byte peek of section 6.
\<close>

definition fz_peek_byte :: "fz_stream \<Rightarrow> int result" where
  "fz_peek_byte stm =
     (case window stm of
        c # cs \<Rightarrow> (Inr (uint c), stm)
      | [] \<Rightarrow>
          if eof stm then (Inr EOF, stm)
          else (case source stm of
                  [] \<Rightarrow> (Inr EOF, stm\<lparr>eof := True\<rparr>)
                | Fail e # ps \<Rightarrow> (Inl e, stm\<lparr>source := ps\<rparr>)
                | Data c cs # ps \<Rightarrow>
                    (Inr (uint c),
                     stm\<lparr>window := c # cs, pos := pos stm + 1 + int (length cs),
                         source := ps\<rparr>)))"

subsection \<open>What a stream still holds\<close>

text \<open>
  The bytes a stream will deliver before its source first throws, and that first error (if
  the source ends without throwing there is none).  Once \<open>eof\<close> is set the source is not
  asked again.
\<close>

fun upcoming :: "pull list \<Rightarrow> byte list" where
  "upcoming [] = []"
| "upcoming (Data c cs # ps) = c # cs @ upcoming ps"
| "upcoming (Fail e # ps) = []"

fun failure :: "pull list \<Rightarrow> fz_error option" where
  "failure [] = None"
| "failure (Data c cs # ps) = failure ps"
| "failure (Fail e # ps) = Some e"

definition next_bytes :: "fz_stream \<Rightarrow> byte list" where
  "next_bytes stm = window stm @ (if eof stm then [] else upcoming (source stm))"

definition next_failure :: "fz_stream \<Rightarrow> fz_error option" where
  "next_failure stm = (if eof stm then None else failure (source stm))"

section \<open>Position\<close>

definition fz_tell :: "fz_stream \<Rightarrow> int" where
  "fz_tell stm = pos stm - int (length (window stm))"

section \<open>Bulk read\<close>

text \<open>
  \<open>fz_read\<close>: the \<open>do ... while (len > 0)\<close> loop.  \<open>buf\<close> is what has been copied to the
  destination so far, \<open>count\<close> the running total.  The body runs once even when \<open>len\<close> is 0.
\<close>

function fz_read_loop ::
  "fz_stream \<Rightarrow> byte list \<Rightarrow> nat \<Rightarrow> nat \<Rightarrow> (nat \<times> byte list) result" where
  "fz_read_loop stm buf count len =
     (case fz_available stm len of
        (Inl e, stm1) \<Rightarrow> (Inl e, stm1)
      | (Inr n0, stm1) \<Rightarrow>
          let n = (if n0 > len then len else n0) in
          if n = 0 then (Inr (count, buf), stm1)
          else
            let buf' = buf @ take n (window stm1);
                stm2 = stm1\<lparr>window := drop n (window stm1)\<rparr>;
                count' = count + n;
                len' = len - n
            in if len' > 0 then fz_read_loop stm2 buf' count' len'
               else (Inr (count', buf'), stm2))"
  by pat_completeness auto
termination
  by (relation "measure (\<lambda>(stm, buf, count, len). len)") (auto split: if_splits)

declare fz_read_loop.simps [simp del]

definition fz_read :: "fz_stream \<Rightarrow> nat \<Rightarrow> (nat \<times> byte list) result" where
  "fz_read stm len = fz_read_loop stm [] 0 len"

section \<open>Fixed-width integer decoders\<close>

text \<open>
  Each byte is fetched with \<open>fz_read_byte\<close> and converted from \<open>int\<close> to the unsigned
  type of the local (\<open>uint32_t\<close> or \<open>uint64_t\<close>), so \<open>EOF\<close> becomes the all-ones word,
  which is what the comparison \<open>a == EOF\<close> then tests.
\<close>

definition fz_read_uint16 :: "fz_stream \<Rightarrow> (16 word) result" where
  "fz_read_uint16 stm =
     seq (fz_read_byte stm) (\<lambda>ca s1.
     seq (fz_read_byte s1) (\<lambda>cb s2.
       let a = (word_of_int ca :: 32 word);
           b = (word_of_int cb :: 32 word);
           x = push_bit 8 a OR b
       in if a = word_of_int EOF \<or> b = word_of_int EOF
          then (Inl (FZ_ERROR_GENERIC, ''premature end of file in int16''), s2)
          else (Inr (ucast x), s2)))"

definition fz_read_uint24 :: "fz_stream \<Rightarrow> (32 word) result" where
  "fz_read_uint24 stm =
     seq (fz_read_byte stm) (\<lambda>ca s1.
     seq (fz_read_byte s1) (\<lambda>cb s2.
     seq (fz_read_byte s2) (\<lambda>cc s3.
       let a = (word_of_int ca :: 32 word);
           b = (word_of_int cb :: 32 word);
           c = (word_of_int cc :: 32 word);
           x = push_bit 16 a OR push_bit 8 b OR c
       in if a = word_of_int EOF \<or> b = word_of_int EOF \<or> c = word_of_int EOF
          then (Inl (FZ_ERROR_GENERIC, ''premature end of file in int24''), s3)
          else (Inr x, s3))))"

definition fz_read_uint32 :: "fz_stream \<Rightarrow> (32 word) result" where
  "fz_read_uint32 stm =
     seq (fz_read_byte stm) (\<lambda>ca s1.
     seq (fz_read_byte s1) (\<lambda>cb s2.
     seq (fz_read_byte s2) (\<lambda>cc s3.
     seq (fz_read_byte s3) (\<lambda>cd s4.
       let a = (word_of_int ca :: 32 word);
           b = (word_of_int cb :: 32 word);
           c = (word_of_int cc :: 32 word);
           d = (word_of_int cd :: 32 word);
           x = push_bit 24 a OR push_bit 16 b OR push_bit 8 c OR d
       in if a = word_of_int EOF \<or> b = word_of_int EOF \<or> c = word_of_int EOF
               \<or> d = word_of_int EOF
          then (Inl (FZ_ERROR_GENERIC, ''premature end of file in int32''), s4)
          else (Inr x, s4)))))"

definition fz_read_uint64 :: "fz_stream \<Rightarrow> (64 word) result" where
  "fz_read_uint64 stm =
     seq (fz_read_byte stm) (\<lambda>ca s1.
     seq (fz_read_byte s1) (\<lambda>cb s2.
     seq (fz_read_byte s2) (\<lambda>cc s3.
     seq (fz_read_byte s3) (\<lambda>cd s4.
     seq (fz_read_byte s4) (\<lambda>ce s5.
     seq (fz_read_byte s5) (\<lambda>cf s6.
     seq (fz_read_byte s6) (\<lambda>cg s7.
     seq (fz_read_byte s7) (\<lambda>ch s8.
       let a = (word_of_int ca :: 64 word);
           b = (word_of_int cb :: 64 word);
           c = (word_of_int cc :: 64 word);
           d = (word_of_int cd :: 64 word);
           e = (word_of_int ce :: 64 word);
           f = (word_of_int cf :: 64 word);
           g = (word_of_int cg :: 64 word);
           h = (word_of_int ch :: 64 word);
           x = push_bit 56 a OR push_bit 48 b OR push_bit 40 c OR push_bit 32 d
               OR push_bit 24 e OR push_bit 16 f OR push_bit 8 g OR h
       in if a = word_of_int EOF \<or> b = word_of_int EOF \<or> c = word_of_int EOF
               \<or> d = word_of_int EOF \<or> e = word_of_int EOF \<or> f = word_of_int EOF
               \<or> g = word_of_int EOF \<or> h = word_of_int EOF
          then (Inl (FZ_ERROR_GENERIC, ''premature end of file in int64''), s8)
          else (Inr x, s8)))))))))"

definition fz_read_uint16_le :: "fz_stream \<Rightarrow> (16 word) result" where
  "fz_read_uint16_le stm =
     seq (fz_read_byte stm) (\<lambda>ca s1.
     seq (fz_read_byte s1) (\<lambda>cb s2.
       let a = (word_of_int ca :: 32 word);
           b = (word_of_int cb :: 32 word);
           x = a OR push_bit 8 b
       in if a = word_of_int EOF \<or> b = word_of_int EOF
          then (Inl (FZ_ERROR_GENERIC, ''premature end of file in int16''), s2)
          else (Inr (ucast x), s2)))"

definition fz_read_uint24_le :: "fz_stream \<Rightarrow> (32 word) result" where
  "fz_read_uint24_le stm =
     seq (fz_read_byte stm) (\<lambda>ca s1.
     seq (fz_read_byte s1) (\<lambda>cb s2.
     seq (fz_read_byte s2) (\<lambda>cc s3.
       let a = (word_of_int ca :: 32 word);
           b = (word_of_int cb :: 32 word);
           c = (word_of_int cc :: 32 word);
           x = a OR push_bit 8 b OR push_bit 16 c
       in if a = word_of_int EOF \<or> b = word_of_int EOF \<or> c = word_of_int EOF
          then (Inl (FZ_ERROR_GENERIC, ''premature end of file in int24''), s3)
          else (Inr x, s3))))"

definition fz_read_uint32_le :: "fz_stream \<Rightarrow> (32 word) result" where
  "fz_read_uint32_le stm =
     seq (fz_read_byte stm) (\<lambda>ca s1.
     seq (fz_read_byte s1) (\<lambda>cb s2.
     seq (fz_read_byte s2) (\<lambda>cc s3.
     seq (fz_read_byte s3) (\<lambda>cd s4.
       let a = (word_of_int ca :: 32 word);
           b = (word_of_int cb :: 32 word);
           c = (word_of_int cc :: 32 word);
           d = (word_of_int cd :: 32 word);
           x = a OR push_bit 8 b OR push_bit 16 c OR push_bit 24 d
       in if a = word_of_int EOF \<or> b = word_of_int EOF \<or> c = word_of_int EOF
               \<or> d = word_of_int EOF
          then (Inl (FZ_ERROR_GENERIC, ''premature end of file in int32''), s4)
          else (Inr x, s4)))))"

definition fz_read_uint64_le :: "fz_stream \<Rightarrow> (64 word) result" where
  "fz_read_uint64_le stm =
     seq (fz_read_byte stm) (\<lambda>ca s1.
     seq (fz_read_byte s1) (\<lambda>cb s2.
     seq (fz_read_byte s2) (\<lambda>cc s3.
     seq (fz_read_byte s3) (\<lambda>cd s4.
     seq (fz_read_byte s4) (\<lambda>ce s5.
     seq (fz_read_byte s5) (\<lambda>cf s6.
     seq (fz_read_byte s6) (\<lambda>cg s7.
     seq (fz_read_byte s7) (\<lambda>ch s8.
       let a = (word_of_int ca :: 64 word);
           b = (word_of_int cb :: 64 word);
           c = (word_of_int cc :: 64 word);
           d = (word_of_int cd :: 64 word);
           e = (word_of_int ce :: 64 word);
           f = (word_of_int cf :: 64 word);
           g = (word_of_int cg :: 64 word);
           h = (word_of_int ch :: 64 word);
           x = a OR push_bit 8 b OR push_bit 16 c OR push_bit 24 d
               OR push_bit 32 e OR push_bit 40 f OR push_bit 48 g OR push_bit 56 h
       in if a = word_of_int EOF \<or> b = word_of_int EOF \<or> c = word_of_int EOF
               \<or> d = word_of_int EOF \<or> e = word_of_int EOF \<or> f = word_of_int EOF
               \<or> g = word_of_int EOF \<or> h = word_of_int EOF
          then (Inl (FZ_ERROR_GENERIC, ''premature end of file in int64''), s8)
          else (Inr x, s8)))))))))"

text \<open>
  The value a run of bytes denotes when read most significant byte first, and least
  significant byte first.  These two follow the specification's words ("bit-shift
  concatenation in the corresponding byte order"), not the code.
\<close>

definition be_value :: "byte list \<Rightarrow> nat" where
  "be_value bs = foldl (\<lambda>v b. v * 256 + unat b) 0 bs"

definition le_value :: "byte list \<Rightarrow> nat" where
  "le_value bs = foldr (\<lambda>b v. unat b + 256 * v) bs 0"

section \<open>Line reader\<close>

text \<open>
  The \<open>while (n > 1)\<close> loop of \<open>fz_read_line\<close>.  \<open>s\<close> holds the characters stored so far
  (the bytes between \<open>mem\<close> and the pointer \<open>s\<close>), \<open>c\<close> is the variable \<open>c\<close>, \<open>n\<close> the
  room left.  Note that \<open>c\<close> is overwritten by the peek after a carriage return.
\<close>

abbreviation CR :: int where
  "CR \<equiv> 13"

abbreviation LF :: int where
  "LF \<equiv> 10"

fun read_line_loop :: "fz_stream \<Rightarrow> byte list \<Rightarrow> int \<Rightarrow> nat \<Rightarrow> (byte list \<times> int \<times> nat) result" where
  "read_line_loop stm s c n =
     (if n > 1 then
        (case fz_read_byte stm of
           (Inl e, stm1) \<Rightarrow> (Inl e, stm1)
         | (Inr c1, stm1) \<Rightarrow>
             if c1 = EOF then (Inr (s, c1, n), stm1)
             else if c1 = CR then
               (case fz_peek_byte stm1 of
                  (Inl e, stm2) \<Rightarrow> (Inl e, stm2)
                | (Inr c2, stm2) \<Rightarrow>
                    if c2 = LF then
                      (case fz_read_byte stm2 of
                         (Inl e, stm3) \<Rightarrow> (Inl e, stm3)
                       | (Inr c3, stm3) \<Rightarrow> (Inr (s, c2, n), stm3))
                    else (Inr (s, c2, n), stm2))
             else if c1 = LF then (Inr (s, c1, n), stm1)
             else read_line_loop stm1 (s @ [word_of_int c1]) c1 (n - 1))
      else (Inr (s, c, n), stm))"

declare read_line_loop.simps [simp del]

text \<open>
  \<open>fz_read_line\<close> itself.  Its outcome is what was written to \<open>mem\<close> (the characters, then
  the terminating zero when \<open>n\<close> is not 0) and whether \<open>mem\<close> is returned (\<open>True\<close>) or
  \<open>NULL\<close> (\<open>False\<close>).
\<close>

definition fz_read_line :: "fz_stream \<Rightarrow> nat \<Rightarrow> (byte list \<times> bool) result" where
  "fz_read_line stm n =
     (case read_line_loop stm [] EOF n of
        (Inl e, stm') \<Rightarrow> (Inl e, stm')
      | (Inr (s, c, n'), stm') \<Rightarrow>
          let mem = (if n' \<noteq> 0 then s @ [0] else s)
          in (Inr (mem, \<not> (s = [] \<and> c = EOF)), stm'))"

section \<open>Seek\<close>






section \<open>Reading a whole stream\<close>

definition MIN_BOMB :: nat where
  "MIN_BOMB = push_bit 20 100"

text \<open>
  Modelled from the spec: the Growable Buffer (sections 3 and 6), whose code is not in
  \<open>stream-read.c\<close>.  \<open>data\<close> holds the \<open>len\<close> bytes of content; \<open>cap\<close> is the capacity.
  Sizes (\<open>size_t\<close>) are natural numbers, and the one sum that can wrap around, the
  capacity first asked for, is taken in \<open>size_t\<close> below; allocation failure is outside
  the model.
\<close>

record fz_buffer =
  data :: "byte list"
  cap :: nat

text \<open>
  Modelled from the spec: \<open>fz_new_buffer\<close>, the \<open>create(capacity)\<close> of section 6, gives an
  empty buffer of the given capacity.
\<close>

definition fz_new_buffer :: "nat \<Rightarrow> fz_buffer" where
  "fz_new_buffer capacity = \<lparr>data = [], cap = capacity\<rparr>"

text \<open>
  Modelled from the spec: \<open>fz_grow_buffer\<close>, the \<open>grow()\<close> of section 6.  The growth
  policy is left open: it is the function \<open>grow\<close> from the old capacity to the new one,
  an argument of everything that grows a buffer.
\<close>

definition fz_grow_buffer :: "(nat \<Rightarrow> nat) \<Rightarrow> fz_buffer \<Rightarrow> fz_buffer" where
  "fz_grow_buffer grow buf = buf\<lparr>cap := grow (cap buf)\<rparr>"

text \<open>
  The number of bytes a stream holds in its window and in the script of its source.  It
  bounds the number of iterations of the loop below.
\<close>

fun pull_size :: "pull \<Rightarrow> nat" where
  "pull_size (Data c cs) = Suc (length cs)"
| "pull_size (Fail e) = 0"

definition stream_size :: "fz_stream \<Rightarrow> nat" where
  "stream_size stm = length (window stm) + sum_list (map pull_size (source stm))"

lemma fz_available_size:
  "fz_available stm len = (Inr n, stm1) \<Longrightarrow> stream_size stm1 = stream_size stm"
  by (auto simp: fz_available_def stream_size_def split: if_splits list.splits pull.splits)

lemma fz_available_window:
  "fz_available stm len = (Inr n, stm1) \<Longrightarrow> n = length (window stm1)"
  by (auto simp: fz_available_def split: if_splits list.splits pull.splits)

lemma fz_read_loop_size:
  "fz_read_loop stm buf count len = (Inr (count', buf'), stm') \<Longrightarrow>
   stream_size stm' + count' = stream_size stm + count"
proof (induction stm buf count len rule: fz_read_loop.induct)
  case (1 stm buf count len)
  obtain r stm1 where av: "fz_available stm len = (r, stm1)"
    by (cases "fz_available stm len")
  show ?case
  proof (cases r)
    case (Inl e)
    with "1.prems" av show ?thesis
      by (simp add: fz_read_loop.simps [of stm])
  next
    case (Inr n0)
    define n where "n = (if n0 > len then len else n0)"
    have sz: "stream_size stm1 = stream_size stm"
      and win: "n0 = length (window stm1)"
      using av Inr fz_available_size fz_available_window by blast+
    let ?stm2 = "stm1\<lparr>window := drop n (window stm1)\<rparr>"
    have sz2: "stream_size ?stm2 + n = stream_size stm"
      using sz win by (auto simp: stream_size_def n_def)
    show ?thesis
    proof (cases "n = 0")
      case True
      with "1.prems" av Inr sz show ?thesis
        by (simp add: fz_read_loop.simps [of stm] n_def Let_def)
    next
      case n0: False
      show ?thesis
      proof (cases "len - n > 0")
        case True
        with "1.prems" av Inr n0
        have "fz_read_loop ?stm2 (buf @ take n (window stm1)) (count + n) (len - n)
                = (Inr (count', buf'), stm')"
          by (simp add: fz_read_loop.simps [of stm] n_def Let_def)
        from "1.IH" [OF av [symmetric] Inr n_def n0 refl refl refl refl True this] sz2
        show ?thesis by simp
      next
        case False
        with "1.prems" av Inr n0 sz2 show ?thesis
          by (auto simp: fz_read_loop.simps [of stm] n_def Let_def)
      qed
    qed
  qed
qed

abbreviation bomb_detected :: fz_error where
  "bomb_detected \<equiv> (FZ_ERROR_GENERIC, ''compression bomb detected'')"

text \<open>
  The body of the \<open>while (1)\<close> loop of \<open>fz_read_best\<close>, inside \<open>fz_try\<close>.  The outcome is
  the exception (if any), the buffer as it stands and the stream.  \<open>fz_read\<close> writes
  directly behind the buffer's content; the content only grows (\<open>buf->len += n\<close>) when the
  read returns.
\<close>

function read_best_loop ::
  "(nat \<Rightarrow> nat) \<Rightarrow> bool \<Rightarrow> nat \<Rightarrow> fz_buffer \<Rightarrow> fz_stream
     \<Rightarrow> (fz_error + unit) \<times> fz_buffer \<times> fz_stream" where
  "read_best_loop grow check_bomb initial buf stm =
     (let buf1 = (if length (data buf) = cap buf then fz_grow_buffer grow buf else buf) in
      if check_bomb \<and> length (data buf1) \<ge> MIN_BOMB \<and> length (data buf1) div 200 > initial
      then (Inl bomb_detected, buf1, stm)
      else
        (case fz_read stm (cap buf1 - length (data buf1)) of
           (Inl e, stm') \<Rightarrow> (Inl e, buf1, stm')
         | (Inr (n, bytes), stm') \<Rightarrow>
             if n = 0 then (Inr (), buf1, stm')
             else read_best_loop grow check_bomb initial
                    (buf1\<lparr>data := data buf1 @ bytes\<rparr>) stm'))"
  by pat_completeness auto
termination
proof (relation "measure (\<lambda>(grow, check_bomb, initial, buf, stm). stream_size stm)")
  show "wf (measure (\<lambda>(grow, check_bomb, initial, buf, stm). stream_size stm))"
    by simp
next
  fix grow :: "nat \<Rightarrow> nat" and check_bomb :: bool and initial :: nat
    and buf buf1 :: fz_buffer and stm stm' :: fz_stream and x :: "fz_error + nat \<times> byte list"
    and xa :: "nat \<times> byte list" and n :: nat and bytes :: "byte list"
  assume "(x, stm') = fz_read stm (cap buf1 - length (data buf1))"
    and "x = Inr xa" and "(n, bytes) = xa" and "n \<noteq> 0"
  then have "fz_read_loop stm [] 0 (cap buf1 - length (data buf1)) = (Inr (n, bytes), stm')"
    by (simp add: fz_read_def)
  from fz_read_loop_size [OF this] \<open>n \<noteq> 0\<close>
  show "((grow, check_bomb, initial, buf1\<lparr>data := data buf1 @ bytes\<rparr>, stm'),
         (grow, check_bomb, initial, buf, stm))
        \<in> measure (\<lambda>(grow, check_bomb, initial, buf, stm). stream_size stm)"
    by simp
qed

declare read_best_loop.simps [simp del]

text \<open>
  Arithmetic on \<open>size_t\<close>, taken as 64 bits wide: unsigned, so a sum wraps around.
\<close>

definition size_t :: "nat \<Rightarrow> nat" where
  "size_t x = x mod 2 ^ 64"

text \<open>
  The block under \<open>fz_try\<close>: clamp the hint, create the buffer, run the loop.  Its
  outcome is the exception thrown inside the block (if any), the buffer and the stream.
  The capacity asked for is \<open>initial + 1\<close> in \<open>size_t\<close>, which is 0 when the hint is the
  largest \<open>size_t\<close>.
\<close>

definition read_best_try ::
  "(nat \<Rightarrow> nat) \<Rightarrow> bool \<Rightarrow> fz_stream \<Rightarrow> nat
     \<Rightarrow> (fz_error + unit) \<times> fz_buffer \<times> fz_stream" where
  "read_best_try grow check_bomb stm initial =
     (let initial1 = (if initial < 1024 then 1024 else initial);
          buf = fz_new_buffer (size_t (initial1 + 1))
      in read_best_loop grow check_bomb initial1 buf stm)"

text \<open>
  \<open>fz_read_best\<close>.  The pointer \<open>truncated\<close> is \<open>None\<close> when null, else \<open>Some\<close> of the
  \<open>int\<close> it points to; the outcome gives the returned buffer or the exception that
  leaves the function, the final value behind \<open>truncated\<close>, and the stream.  A dropped
  buffer is not part of the outcome.
\<close>

definition fz_read_best ::
  "(nat \<Rightarrow> nat) \<Rightarrow> fz_stream \<Rightarrow> nat \<Rightarrow> int option
     \<Rightarrow> (fz_error + fz_buffer) \<times> int option \<times> fz_stream" where
  "fz_read_best grow stm initial truncated =
     (let check_bomb = (initial > 0);
          truncated0 = map_option (\<lambda>t. 0) truncated
      in case read_best_try grow check_bomb stm initial of
           (Inr u, buf, stm') \<Rightarrow> (Inr buf, truncated0, stm')
         | (Inl e, buf, stm') \<Rightarrow>
             if fst e = FZ_ERROR_TRYLATER then (Inl e, truncated0, stm')
             else (case truncated0 of
                     Some t \<Rightarrow> (Inr buf, Some 1, stm')
                   | None \<Rightarrow> (Inl e, None, stm')))"

definition fz_read_all ::
  "(nat \<Rightarrow> nat) \<Rightarrow> fz_stream \<Rightarrow> nat \<Rightarrow> (fz_error + fz_buffer) \<times> fz_stream" where
  "fz_read_all grow stm initial =
     (case fz_read_best grow stm initial None of (r, t, stm') \<Rightarrow> (r, stm'))"

text \<open>
  \<open>fz_read_file\<close>.  The file opener is an external collaborator and is the argument
  \<open>fz_open_file\<close>; the stream is dropped before returning, so only the buffer or the
  exception remains.
\<close>

definition fz_read_file ::
  "(string \<Rightarrow> fz_error + fz_stream) \<Rightarrow> (nat \<Rightarrow> nat) \<Rightarrow> string \<Rightarrow> fz_error + fz_buffer" where
  "fz_read_file fz_open_file grow filename =
     (case fz_open_file filename of
        Inl e \<Rightarrow> Inl e
      | Inr stm \<Rightarrow> fst (fz_read_all grow stm 0))"

text \<open>
  Modelled from the spec: one growth policy that fits section 6 (\<open>grow()\<close> at least
  doubles the capacity), for the concrete examples below.
\<close>

definition double_capacity :: "nat \<Rightarrow> nat" where
  "double_capacity c = (if c = 0 then 256 else 2 * c)"

text \<open>
  A stream of \<open>n + 1\<close> zero bytes that its source delivers in one pull, also for the
  concrete examples.
\<close>

definition zeros_stream :: "nat \<Rightarrow> fz_stream" where
  "zeros_stream n =
     \<lparr>window = [], pos = 0, eof = False, avail = 0, source = [Data 0 (replicate n 0)]\<rparr>"

text \<open>
  The errors that a piece of the source's script throws, in order.  The part of the
  script that a call has used up is the difference between \<open>source\<close> before and after.
\<close>

fun thrown :: "pull list \<Rightarrow> fz_error list" where
  "thrown [] = []"
| "thrown (Data c cs # ps) = thrown ps"
| "thrown (Fail e # ps) = e # thrown ps"

section \<open>Properties of the fixed-width decoders\<close>

subsection \<open>The single-byte read in terms of what the stream holds\<close>

lemma seq_split: "seq r f = (case fst r of Inl e \<Rightarrow> (Inl e, snd r) | Inr a \<Rightarrow> f a (snd r))"
  by (cases r) (auto simp: seq_def split: sum.splits)

lemma read_byte_fst:
  "next_bytes stm \<noteq> [] \<or> next_failure stm = None \<Longrightarrow>
   fst (fz_read_byte stm) = (case next_bytes stm of [] \<Rightarrow> Inr EOF | b # bs \<Rightarrow> Inr (uint b))"
  by (cases "source stm" rule: upcoming.cases)
     (auto simp: fz_read_byte_def next_bytes_def next_failure_def split: list.splits if_splits)

lemma read_byte_next:
  "next_bytes stm \<noteq> [] \<or> next_failure stm = None \<Longrightarrow>
   next_bytes (snd (fz_read_byte stm)) = tl (next_bytes stm)"
  by (cases "source stm" rule: upcoming.cases)
     (auto simp: fz_read_byte_def next_bytes_def next_failure_def split: list.splits if_splits)

lemma read_byte_failure:
  "next_bytes stm \<noteq> [] \<or> next_failure stm = None \<Longrightarrow>
   next_failure (snd (fz_read_byte stm)) = next_failure stm"
  by (cases "source stm" rule: upcoming.cases)
     (auto simp: fz_read_byte_def next_bytes_def next_failure_def split: list.splits if_splits)

lemma read_byte_tell:
  "next_bytes stm \<noteq> [] \<or> next_failure stm = None \<Longrightarrow>
   fz_tell (snd (fz_read_byte stm)) = fz_tell stm + (if next_bytes stm = [] then 0 else 1)"
  by (cases "source stm" rule: upcoming.cases)
     (auto simp: fz_read_byte_def next_bytes_def next_failure_def fz_tell_def split: list.splits if_splits)

lemmas read_byte_simps = read_byte_fst read_byte_next read_byte_failure read_byte_tell

subsection \<open>Bytes as numbers\<close>

text \<open>
  A byte converted to \<open>uint32_t\<close> or \<open>uint64_t\<close> is never the converted \<open>EOF\<close>, and
  shifting and or-ing bytes together is the same as the positional sum.
\<close>

lemma byte_not_eof32 [simp]: "(ucast (b::byte) :: 32 word) \<noteq> - 1"
proof
  assume "(ucast b :: 32 word) = - 1"
  then have "bit (ucast b :: 32 word) 8 = bit (- 1 :: 32 word) 8" by (simp only:)
  then show False by (auto simp: bit_simps dest: bit_imp_le_length)
qed

lemma byte_not_eof64 [simp]: "(ucast (b::byte) :: 64 word) \<noteq> - 1"
proof
  assume "(ucast b :: 64 word) = - 1"
  then have "bit (ucast b :: 64 word) 8 = bit (- 1 :: 64 word) 8" by (simp only:)
  then show False by (auto simp: bit_simps dest: bit_imp_le_length)
qed

lemma horner_step: "push_bit 8 (x :: 'a::len word) OR ucast (b::byte) = x * 256 + ucast b"
proof -
  have "push_bit 8 x AND (ucast b :: 'a word) = 0"
    by (auto simp: bit_eq_iff bit_simps dest: bit_imp_le_length)
  then have "push_bit 8 x + ucast b = push_bit 8 x OR ucast b"
    by (rule disjunctive_add_eq_or)
  then show ?thesis by (simp add: push_bit_eq_mult)
qed

lemma be_value_bound: "be_value bs < 256 ^ length bs"
proof (induction bs rule: rev_induct)
  case Nil
  show ?case by (simp add: be_value_def)
next
  case (snoc b bs)
  have "unat b < 256" using unsigned_less[of b] by simp
  with snoc show ?case by (simp add: be_value_def)
qed

lemma be_value_snoc: "be_value (bs @ [b]) = be_value bs * 256 + unat b"
  by (simp add: be_value_def)

lemma le_value_rev: "le_value bs = be_value (rev bs)"
  by (induction bs) (simp_all add: le_value_def be_value_def)

lemma pow256: "(256::nat) ^ n = 2 ^ (8 * n)"
  by (simp only: power_mult) simp

lemma unat_horner:
  "8 * length bs \<le> LENGTH('a) \<Longrightarrow>
   unat (foldl (\<lambda>x b. x * 256 + ucast b) (0 :: 'a::len word) bs) = be_value bs"
proof (induction bs rule: rev_induct)
  case Nil
  show ?case by (simp add: be_value_def)
next
  case (snoc b bs)
  let ?X = "foldl (\<lambda>x b. x * 256 + ucast b) (0 :: 'a word) bs"
  have ih: "unat ?X = be_value bs" using snoc by simp
  have "be_value (bs @ [b]) < 256 ^ length (bs @ [b])" by (rule be_value_bound)
  also have "\<dots> = 2 ^ (8 * length (bs @ [b]))" by (rule pow256)
  also have "\<dots> \<le> 2 ^ LENGTH('a)" using snoc.prems by (intro power_increasing) simp_all
  finally have lt: "be_value bs * 256 + unat b < 2 ^ LENGTH('a)" by (simp only: be_value_snoc)
  have "word_of_nat (unat ?X) = ?X" by simp
  then have x: "?X = word_of_nat (be_value bs)" by (simp only: ih)
  have b: "(ucast b :: 'a word) = word_of_nat (unat b)" by simp
  have "word_of_nat (be_value bs * 256 + unat b) = ?X * 256 + (ucast b :: 'a word)"
    by (simp only: x b of_nat_add of_nat_mult of_nat_numeral)
  from of_nat_inverse[OF this lt] show ?case by (simp add: be_value_snoc)
qed

subsection \<open>Each decoder, with enough bytes and with too few\<close>

lemma length_less_Suc:
  "length xs < Suc n \<longleftrightarrow> xs = [] \<or> (\<exists>y ys. xs = y # ys \<and> length ys < n)"
  by (cases xs) auto

lemma short_list_2:
  assumes "length (xs :: 'a list) < 2"
    and "xs = [] \<Longrightarrow> P"
    and "\<And>a. xs = [a] \<Longrightarrow> P"
  shows P
  using assms by (auto simp: eval_nat_numeral length_less_Suc)

lemma short_list_3:
  assumes "length (xs :: 'a list) < 3"
    and "xs = [] \<Longrightarrow> P"
    and "\<And>a. xs = [a] \<Longrightarrow> P"
    and "\<And>a b. xs = [a, b] \<Longrightarrow> P"
  shows P
  using assms by (auto simp: eval_nat_numeral length_less_Suc)

lemma short_list_4:
  assumes "length (xs :: 'a list) < 4"
    and "xs = [] \<Longrightarrow> P"
    and "\<And>a. xs = [a] \<Longrightarrow> P"
    and "\<And>a b. xs = [a, b] \<Longrightarrow> P"
    and "\<And>a b c. xs = [a, b, c] \<Longrightarrow> P"
  shows P
  using assms by (auto simp: eval_nat_numeral length_less_Suc)

lemma short_list_8:
  assumes "length (xs :: 'a list) < 8"
    and "xs = [] \<Longrightarrow> P"
    and "\<And>a. xs = [a] \<Longrightarrow> P"
    and "\<And>a b. xs = [a, b] \<Longrightarrow> P"
    and "\<And>a b c. xs = [a, b, c] \<Longrightarrow> P"
    and "\<And>a b c d. xs = [a, b, c, d] \<Longrightarrow> P"
    and "\<And>a b c d e. xs = [a, b, c, d, e] \<Longrightarrow> P"
    and "\<And>a b c d e f. xs = [a, b, c, d, e, f] \<Longrightarrow> P"
    and "\<And>a b c d e f g. xs = [a, b, c, d, e, f, g] \<Longrightarrow> P"
  shows P
  using assms by (auto simp: eval_nat_numeral length_less_Suc)

lemma unat_uint16:
  fixes a and b :: byte
  shows "unat (ucast (push_bit 8 (ucast a) OR ucast b :: 32 word) :: 16 word) = be_value [a, b]"
proof -
  have "(push_bit 8 (ucast a) OR ucast b :: 32 word) = push_bit 8 (ucast a) OR ucast b"
    by (simp add: push_bit_or or.assoc)
  then have h: "(push_bit 8 (ucast a) OR ucast b :: 32 word) = foldl (\<lambda>x b. x * 256 + ucast b) 0 [a, b]"
    by (simp only: horner_step foldl.simps mult_zero_left add_0_left)
  have "unat (push_bit 8 (ucast a) OR ucast b :: 32 word) = be_value [a, b]"
    unfolding h by (rule unat_horner) simp
  then show ?thesis
    using be_value_bound [of "[a, b]"] by (simp add: unsigned_ucast_eq take_bit_nat_eq_self)
qed

lemma uint16_value:
  assumes "next_bytes stm = [a, b] @ rest"
  shows "case fz_read_uint16 stm of
           (Inr v, stm') \<Rightarrow> unat v = be_value [a, b] \<and> next_bytes stm' = rest
                              \<and> fz_tell stm' = fz_tell stm + 2
         | (Inl e, stm') \<Rightarrow> False"
  using assms
  by (simp add: fz_read_uint16_def seq_split read_byte_simps Let_def unat_uint16)

lemma uint16_short:
  assumes "next_failure stm = None" and "length (next_bytes stm) < 2"
  shows "case fz_read_uint16 stm of
           (r, stm') \<Rightarrow> r = Inl (FZ_ERROR_GENERIC, ''premature end of file in int16'')
                         \<and> next_bytes stm' = []
                         \<and> fz_tell stm' = fz_tell stm + int (length (next_bytes stm))"
  using assms(2)
  by (rule short_list_2)
     (simp_all add: fz_read_uint16_def seq_split read_byte_simps Let_def assms(1))

lemma unat_uint24:
  fixes a and b and c :: byte
  shows "unat (push_bit 16 (ucast a) OR push_bit 8 (ucast b) OR ucast c :: 32 word) = be_value [a, b, c]"
proof -
  have "(push_bit 16 (ucast a) OR push_bit 8 (ucast b) OR ucast c :: 32 word) = push_bit 8 (push_bit 8 (ucast a) OR ucast b) OR ucast c"
    by (simp add: push_bit_or or.assoc)
  then have h: "(push_bit 16 (ucast a) OR push_bit 8 (ucast b) OR ucast c :: 32 word) = foldl (\<lambda>x b. x * 256 + ucast b) 0 [a, b, c]"
    by (simp only: horner_step foldl.simps mult_zero_left add_0_left)
  have "unat (push_bit 16 (ucast a) OR push_bit 8 (ucast b) OR ucast c :: 32 word) = be_value [a, b, c]"
    unfolding h by (rule unat_horner) simp
  then show ?thesis
    by simp
qed

lemma uint24_value:
  assumes "next_bytes stm = [a, b, c] @ rest"
  shows "case fz_read_uint24 stm of
           (Inr v, stm') \<Rightarrow> unat v = be_value [a, b, c] \<and> next_bytes stm' = rest
                              \<and> fz_tell stm' = fz_tell stm + 3
         | (Inl e, stm') \<Rightarrow> False"
  using assms
  by (simp add: fz_read_uint24_def seq_split read_byte_simps Let_def unat_uint24)

lemma uint24_short:
  assumes "next_failure stm = None" and "length (next_bytes stm) < 3"
  shows "case fz_read_uint24 stm of
           (r, stm') \<Rightarrow> r = Inl (FZ_ERROR_GENERIC, ''premature end of file in int24'')
                         \<and> next_bytes stm' = []
                         \<and> fz_tell stm' = fz_tell stm + int (length (next_bytes stm))"
  using assms(2)
  by (rule short_list_3)
     (simp_all add: fz_read_uint24_def seq_split read_byte_simps Let_def assms(1))

lemma unat_uint32:
  fixes a and b and c and d :: byte
  shows "unat (push_bit 24 (ucast a) OR push_bit 16 (ucast b) OR push_bit 8 (ucast c) OR ucast d :: 32 word) = be_value [a, b, c, d]"
proof -
  have "(push_bit 24 (ucast a) OR push_bit 16 (ucast b) OR push_bit 8 (ucast c) OR ucast d :: 32 word) = push_bit 8 (push_bit 8 (push_bit 8 (ucast a) OR ucast b) OR ucast c) OR ucast d"
    by (simp add: push_bit_or or.assoc)
  then have h: "(push_bit 24 (ucast a) OR push_bit 16 (ucast b) OR push_bit 8 (ucast c) OR ucast d :: 32 word) = foldl (\<lambda>x b. x * 256 + ucast b) 0 [a, b, c, d]"
    by (simp only: horner_step foldl.simps mult_zero_left add_0_left)
  have "unat (push_bit 24 (ucast a) OR push_bit 16 (ucast b) OR push_bit 8 (ucast c) OR ucast d :: 32 word) = be_value [a, b, c, d]"
    unfolding h by (rule unat_horner) simp
  then show ?thesis
    by simp
qed

lemma uint32_value:
  assumes "next_bytes stm = [a, b, c, d] @ rest"
  shows "case fz_read_uint32 stm of
           (Inr v, stm') \<Rightarrow> unat v = be_value [a, b, c, d] \<and> next_bytes stm' = rest
                              \<and> fz_tell stm' = fz_tell stm + 4
         | (Inl e, stm') \<Rightarrow> False"
  using assms
  by (simp add: fz_read_uint32_def seq_split read_byte_simps Let_def unat_uint32)

lemma uint32_short:
  assumes "next_failure stm = None" and "length (next_bytes stm) < 4"
  shows "case fz_read_uint32 stm of
           (r, stm') \<Rightarrow> r = Inl (FZ_ERROR_GENERIC, ''premature end of file in int32'')
                         \<and> next_bytes stm' = []
                         \<and> fz_tell stm' = fz_tell stm + int (length (next_bytes stm))"
  using assms(2)
  by (rule short_list_4)
     (simp_all add: fz_read_uint32_def seq_split read_byte_simps Let_def assms(1))

lemma unat_uint64:
  fixes a and b and c and d and e and f and g and h :: byte
  shows "unat (push_bit 56 (ucast a) OR push_bit 48 (ucast b) OR push_bit 40 (ucast c) OR push_bit 32 (ucast d) OR push_bit 24 (ucast e) OR push_bit 16 (ucast f) OR push_bit 8 (ucast g) OR ucast h :: 64 word) = be_value [a, b, c, d, e, f, g, h]"
proof -
  have "(push_bit 56 (ucast a) OR push_bit 48 (ucast b) OR push_bit 40 (ucast c) OR push_bit 32 (ucast d) OR push_bit 24 (ucast e) OR push_bit 16 (ucast f) OR push_bit 8 (ucast g) OR ucast h :: 64 word) = push_bit 8 (push_bit 8 (push_bit 8 (push_bit 8 (push_bit 8 (push_bit 8 (push_bit 8 (ucast a) OR ucast b) OR ucast c) OR ucast d) OR ucast e) OR ucast f) OR ucast g) OR ucast h"
    by (simp add: push_bit_or or.assoc)
  then have h: "(push_bit 56 (ucast a) OR push_bit 48 (ucast b) OR push_bit 40 (ucast c) OR push_bit 32 (ucast d) OR push_bit 24 (ucast e) OR push_bit 16 (ucast f) OR push_bit 8 (ucast g) OR ucast h :: 64 word) = foldl (\<lambda>x b. x * 256 + ucast b) 0 [a, b, c, d, e, f, g, h]"
    by (simp only: horner_step foldl.simps mult_zero_left add_0_left)
  have "unat (push_bit 56 (ucast a) OR push_bit 48 (ucast b) OR push_bit 40 (ucast c) OR push_bit 32 (ucast d) OR push_bit 24 (ucast e) OR push_bit 16 (ucast f) OR push_bit 8 (ucast g) OR ucast h :: 64 word) = be_value [a, b, c, d, e, f, g, h]"
    unfolding h by (rule unat_horner) simp
  then show ?thesis
    by simp
qed

lemma uint64_value:
  assumes "next_bytes stm = [a, b, c, d, e, f, g, h] @ rest"
  shows "case fz_read_uint64 stm of
           (Inr v, stm') \<Rightarrow> unat v = be_value [a, b, c, d, e, f, g, h] \<and> next_bytes stm' = rest
                              \<and> fz_tell stm' = fz_tell stm + 8
         | (Inl e, stm') \<Rightarrow> False"
  using assms
  by (simp add: fz_read_uint64_def seq_split read_byte_simps Let_def unat_uint64)

lemma uint64_short:
  assumes "next_failure stm = None" and "length (next_bytes stm) < 8"
  shows "case fz_read_uint64 stm of
           (r, stm') \<Rightarrow> r = Inl (FZ_ERROR_GENERIC, ''premature end of file in int64'')
                         \<and> next_bytes stm' = []
                         \<and> fz_tell stm' = fz_tell stm + int (length (next_bytes stm))"
  using assms(2)
  by (rule short_list_8)
     (simp_all add: fz_read_uint64_def seq_split read_byte_simps Let_def assms(1))

lemma unat_uint16_le:
  fixes a and b :: byte
  shows "unat (ucast (ucast a OR push_bit 8 (ucast b) :: 32 word) :: 16 word) = le_value [a, b]"
proof -
  have "(ucast a OR push_bit 8 (ucast b) :: 32 word) = push_bit 8 (ucast b) OR ucast a"
    by (simp add: push_bit_or or.assoc or.commute or.left_commute)
  then have h: "(ucast a OR push_bit 8 (ucast b) :: 32 word) = foldl (\<lambda>x b. x * 256 + ucast b) 0 [b, a]"
    by (simp only: horner_step foldl.simps mult_zero_left add_0_left)
  have "unat (ucast a OR push_bit 8 (ucast b) :: 32 word) = be_value [b, a]"
    unfolding h by (rule unat_horner) simp
  then show ?thesis
    using be_value_bound [of "[b, a]"] by (simp add: unsigned_ucast_eq take_bit_nat_eq_self le_value_rev)
qed

lemma uint16_le_value:
  assumes "next_bytes stm = [a, b] @ rest"
  shows "case fz_read_uint16_le stm of
           (Inr v, stm') \<Rightarrow> unat v = le_value [a, b] \<and> next_bytes stm' = rest
                              \<and> fz_tell stm' = fz_tell stm + 2
         | (Inl e, stm') \<Rightarrow> False"
  using assms
  by (simp add: fz_read_uint16_le_def seq_split read_byte_simps Let_def unat_uint16_le)

lemma uint16_le_short:
  assumes "next_failure stm = None" and "length (next_bytes stm) < 2"
  shows "case fz_read_uint16_le stm of
           (r, stm') \<Rightarrow> r = Inl (FZ_ERROR_GENERIC, ''premature end of file in int16'')
                         \<and> next_bytes stm' = []
                         \<and> fz_tell stm' = fz_tell stm + int (length (next_bytes stm))"
  using assms(2)
  by (rule short_list_2)
     (simp_all add: fz_read_uint16_le_def seq_split read_byte_simps Let_def assms(1))

lemma unat_uint24_le:
  fixes a and b and c :: byte
  shows "unat (ucast a OR push_bit 8 (ucast b) OR push_bit 16 (ucast c) :: 32 word) = le_value [a, b, c]"
proof -
  have "(ucast a OR push_bit 8 (ucast b) OR push_bit 16 (ucast c) :: 32 word) = push_bit 8 (push_bit 8 (ucast c) OR ucast b) OR ucast a"
    by (simp add: push_bit_or or.assoc or.commute or.left_commute)
  then have h: "(ucast a OR push_bit 8 (ucast b) OR push_bit 16 (ucast c) :: 32 word) = foldl (\<lambda>x b. x * 256 + ucast b) 0 [c, b, a]"
    by (simp only: horner_step foldl.simps mult_zero_left add_0_left)
  have "unat (ucast a OR push_bit 8 (ucast b) OR push_bit 16 (ucast c) :: 32 word) = be_value [c, b, a]"
    unfolding h by (rule unat_horner) simp
  then show ?thesis
    by (simp add: le_value_rev)
qed

lemma uint24_le_value:
  assumes "next_bytes stm = [a, b, c] @ rest"
  shows "case fz_read_uint24_le stm of
           (Inr v, stm') \<Rightarrow> unat v = le_value [a, b, c] \<and> next_bytes stm' = rest
                              \<and> fz_tell stm' = fz_tell stm + 3
         | (Inl e, stm') \<Rightarrow> False"
  using assms
  by (simp add: fz_read_uint24_le_def seq_split read_byte_simps Let_def unat_uint24_le)

lemma uint24_le_short:
  assumes "next_failure stm = None" and "length (next_bytes stm) < 3"
  shows "case fz_read_uint24_le stm of
           (r, stm') \<Rightarrow> r = Inl (FZ_ERROR_GENERIC, ''premature end of file in int24'')
                         \<and> next_bytes stm' = []
                         \<and> fz_tell stm' = fz_tell stm + int (length (next_bytes stm))"
  using assms(2)
  by (rule short_list_3)
     (simp_all add: fz_read_uint24_le_def seq_split read_byte_simps Let_def assms(1))

lemma unat_uint32_le:
  fixes a and b and c and d :: byte
  shows "unat (ucast a OR push_bit 8 (ucast b) OR push_bit 16 (ucast c) OR push_bit 24 (ucast d) :: 32 word) = le_value [a, b, c, d]"
proof -
  have "(ucast a OR push_bit 8 (ucast b) OR push_bit 16 (ucast c) OR push_bit 24 (ucast d) :: 32 word) = push_bit 8 (push_bit 8 (push_bit 8 (ucast d) OR ucast c) OR ucast b) OR ucast a"
    by (simp add: push_bit_or or.assoc or.commute or.left_commute)
  then have h: "(ucast a OR push_bit 8 (ucast b) OR push_bit 16 (ucast c) OR push_bit 24 (ucast d) :: 32 word) = foldl (\<lambda>x b. x * 256 + ucast b) 0 [d, c, b, a]"
    by (simp only: horner_step foldl.simps mult_zero_left add_0_left)
  have "unat (ucast a OR push_bit 8 (ucast b) OR push_bit 16 (ucast c) OR push_bit 24 (ucast d) :: 32 word) = be_value [d, c, b, a]"
    unfolding h by (rule unat_horner) simp
  then show ?thesis
    by (simp add: le_value_rev)
qed

lemma uint32_le_value:
  assumes "next_bytes stm = [a, b, c, d] @ rest"
  shows "case fz_read_uint32_le stm of
           (Inr v, stm') \<Rightarrow> unat v = le_value [a, b, c, d] \<and> next_bytes stm' = rest
                              \<and> fz_tell stm' = fz_tell stm + 4
         | (Inl e, stm') \<Rightarrow> False"
  using assms
  by (simp add: fz_read_uint32_le_def seq_split read_byte_simps Let_def unat_uint32_le)

lemma uint32_le_short:
  assumes "next_failure stm = None" and "length (next_bytes stm) < 4"
  shows "case fz_read_uint32_le stm of
           (r, stm') \<Rightarrow> r = Inl (FZ_ERROR_GENERIC, ''premature end of file in int32'')
                         \<and> next_bytes stm' = []
                         \<and> fz_tell stm' = fz_tell stm + int (length (next_bytes stm))"
  using assms(2)
  by (rule short_list_4)
     (simp_all add: fz_read_uint32_le_def seq_split read_byte_simps Let_def assms(1))

lemma unat_uint64_le:
  fixes a and b and c and d and e and f and g and h :: byte
  shows "unat (ucast a OR push_bit 8 (ucast b) OR push_bit 16 (ucast c) OR push_bit 24 (ucast d) OR push_bit 32 (ucast e) OR push_bit 40 (ucast f) OR push_bit 48 (ucast g) OR push_bit 56 (ucast h) :: 64 word) = le_value [a, b, c, d, e, f, g, h]"
proof -
  have "(ucast a OR push_bit 8 (ucast b) OR push_bit 16 (ucast c) OR push_bit 24 (ucast d) OR push_bit 32 (ucast e) OR push_bit 40 (ucast f) OR push_bit 48 (ucast g) OR push_bit 56 (ucast h) :: 64 word) = push_bit 8 (push_bit 8 (push_bit 8 (push_bit 8 (push_bit 8 (push_bit 8 (push_bit 8 (ucast h) OR ucast g) OR ucast f) OR ucast e) OR ucast d) OR ucast c) OR ucast b) OR ucast a"
    by (simp add: push_bit_or or.assoc or.commute or.left_commute)
  then have h: "(ucast a OR push_bit 8 (ucast b) OR push_bit 16 (ucast c) OR push_bit 24 (ucast d) OR push_bit 32 (ucast e) OR push_bit 40 (ucast f) OR push_bit 48 (ucast g) OR push_bit 56 (ucast h) :: 64 word) = foldl (\<lambda>x b. x * 256 + ucast b) 0 [h, g, f, e, d, c, b, a]"
    by (simp only: horner_step foldl.simps mult_zero_left add_0_left)
  have "unat (ucast a OR push_bit 8 (ucast b) OR push_bit 16 (ucast c) OR push_bit 24 (ucast d) OR push_bit 32 (ucast e) OR push_bit 40 (ucast f) OR push_bit 48 (ucast g) OR push_bit 56 (ucast h) :: 64 word) = be_value [h, g, f, e, d, c, b, a]"
    unfolding h by (rule unat_horner) simp
  then show ?thesis
    by (simp add: le_value_rev)
qed

lemma uint64_le_value:
  assumes "next_bytes stm = [a, b, c, d, e, f, g, h] @ rest"
  shows "case fz_read_uint64_le stm of
           (Inr v, stm') \<Rightarrow> unat v = le_value [a, b, c, d, e, f, g, h] \<and> next_bytes stm' = rest
                              \<and> fz_tell stm' = fz_tell stm + 8
         | (Inl e, stm') \<Rightarrow> False"
  using assms
  by (simp add: fz_read_uint64_le_def seq_split read_byte_simps Let_def unat_uint64_le)

lemma uint64_le_short:
  assumes "next_failure stm = None" and "length (next_bytes stm) < 8"
  shows "case fz_read_uint64_le stm of
           (r, stm') \<Rightarrow> r = Inl (FZ_ERROR_GENERIC, ''premature end of file in int64'')
                         \<and> next_bytes stm' = []
                         \<and> fz_tell stm' = fz_tell stm + int (length (next_bytes stm))"
  using assms(2)
  by (rule short_list_8)
     (simp_all add: fz_read_uint64_le_def seq_split read_byte_simps Let_def assms(1))

subsection \<open>All eight decoders\<close>

lemma list_of_length_2: "length bs = 2 \<Longrightarrow> \<exists>a b. bs = [a, b]"
  by (auto simp: eval_nat_numeral length_Suc_conv)

lemma list_of_length_3: "length bs = 3 \<Longrightarrow> \<exists>a b c. bs = [a, b, c]"
  by (auto simp: eval_nat_numeral length_Suc_conv)

lemma list_of_length_4: "length bs = 4 \<Longrightarrow> \<exists>a b c d. bs = [a, b, c, d]"
  by (auto simp: eval_nat_numeral length_Suc_conv)

lemma list_of_length_8: "length bs = 8 \<Longrightarrow> \<exists>a b c d e f g h. bs = [a, b, c, d, e, f, g, h]"
  by (auto simp: eval_nat_numeral length_Suc_conv)

text \<open>
  Claim C7.  When the stream still holds the bytes \<open>bs\<close> followed by \<open>rest\<close>, and \<open>bs\<close>
  has as many bytes as the decoder's width asks for, each of the eight decoders returns
  the value of \<open>bs\<close> in its byte order (most significant byte first for the plain
  decoders, least significant first for the \<open>_le\<close> ones), leaves exactly \<open>rest\<close> in the
  stream and advances \<open>fz_tell\<close> by the number of bytes of its width.
\<close>

theorem decoders_concatenate_bytes:
  assumes "next_bytes stm = bs @ rest"
  shows
    "(length bs = 2 \<longrightarrow>
        (case fz_read_uint16 stm of
           (Inr v, stm') \<Rightarrow> unat v = be_value bs \<and> next_bytes stm' = rest
                              \<and> fz_tell stm' = fz_tell stm + 2
         | (Inl e, stm') \<Rightarrow> False)
      \<and> (case fz_read_uint16_le stm of
           (Inr v, stm') \<Rightarrow> unat v = le_value bs \<and> next_bytes stm' = rest
                              \<and> fz_tell stm' = fz_tell stm + 2
         | (Inl e, stm') \<Rightarrow> False))
   \<and> (length bs = 3 \<longrightarrow>
        (case fz_read_uint24 stm of
           (Inr v, stm') \<Rightarrow> unat v = be_value bs \<and> next_bytes stm' = rest
                              \<and> fz_tell stm' = fz_tell stm + 3
         | (Inl e, stm') \<Rightarrow> False)
      \<and> (case fz_read_uint24_le stm of
           (Inr v, stm') \<Rightarrow> unat v = le_value bs \<and> next_bytes stm' = rest
                              \<and> fz_tell stm' = fz_tell stm + 3
         | (Inl e, stm') \<Rightarrow> False))
   \<and> (length bs = 4 \<longrightarrow>
        (case fz_read_uint32 stm of
           (Inr v, stm') \<Rightarrow> unat v = be_value bs \<and> next_bytes stm' = rest
                              \<and> fz_tell stm' = fz_tell stm + 4
         | (Inl e, stm') \<Rightarrow> False)
      \<and> (case fz_read_uint32_le stm of
           (Inr v, stm') \<Rightarrow> unat v = le_value bs \<and> next_bytes stm' = rest
                              \<and> fz_tell stm' = fz_tell stm + 4
         | (Inl e, stm') \<Rightarrow> False))
   \<and> (length bs = 8 \<longrightarrow>
        (case fz_read_uint64 stm of
           (Inr v, stm') \<Rightarrow> unat v = be_value bs \<and> next_bytes stm' = rest
                              \<and> fz_tell stm' = fz_tell stm + 8
         | (Inl e, stm') \<Rightarrow> False)
      \<and> (case fz_read_uint64_le stm of
           (Inr v, stm') \<Rightarrow> unat v = le_value bs \<and> next_bytes stm' = rest
                              \<and> fz_tell stm' = fz_tell stm + 8
         | (Inl e, stm') \<Rightarrow> False))"
proof (intro conjI impI)
  assume "length bs = 2"
  then obtain a b where bs: "bs = [a, b]"
    using list_of_length_2 by blast
  from assms show "case fz_read_uint16 stm of
           (Inr v, stm') \<Rightarrow> unat v = be_value bs \<and> next_bytes stm' = rest
                              \<and> fz_tell stm' = fz_tell stm + 2
         | (Inl e, stm') \<Rightarrow> False"
    unfolding bs by (rule uint16_value)
  from assms show "case fz_read_uint16_le stm of
           (Inr v, stm') \<Rightarrow> unat v = le_value bs \<and> next_bytes stm' = rest
                              \<and> fz_tell stm' = fz_tell stm + 2
         | (Inl e, stm') \<Rightarrow> False"
    unfolding bs by (rule uint16_le_value)
next
  assume "length bs = 3"
  then obtain a b c where bs: "bs = [a, b, c]"
    using list_of_length_3 by blast
  from assms show "case fz_read_uint24 stm of
           (Inr v, stm') \<Rightarrow> unat v = be_value bs \<and> next_bytes stm' = rest
                              \<and> fz_tell stm' = fz_tell stm + 3
         | (Inl e, stm') \<Rightarrow> False"
    unfolding bs by (rule uint24_value)
  from assms show "case fz_read_uint24_le stm of
           (Inr v, stm') \<Rightarrow> unat v = le_value bs \<and> next_bytes stm' = rest
                              \<and> fz_tell stm' = fz_tell stm + 3
         | (Inl e, stm') \<Rightarrow> False"
    unfolding bs by (rule uint24_le_value)
next
  assume "length bs = 4"
  then obtain a b c d where bs: "bs = [a, b, c, d]"
    using list_of_length_4 by blast
  from assms show "case fz_read_uint32 stm of
           (Inr v, stm') \<Rightarrow> unat v = be_value bs \<and> next_bytes stm' = rest
                              \<and> fz_tell stm' = fz_tell stm + 4
         | (Inl e, stm') \<Rightarrow> False"
    unfolding bs by (rule uint32_value)
  from assms show "case fz_read_uint32_le stm of
           (Inr v, stm') \<Rightarrow> unat v = le_value bs \<and> next_bytes stm' = rest
                              \<and> fz_tell stm' = fz_tell stm + 4
         | (Inl e, stm') \<Rightarrow> False"
    unfolding bs by (rule uint32_le_value)
next
  assume "length bs = 8"
  then obtain a b c d e f g h where bs: "bs = [a, b, c, d, e, f, g, h]"
    using list_of_length_8 by blast
  from assms show "case fz_read_uint64 stm of
           (Inr v, stm') \<Rightarrow> unat v = be_value bs \<and> next_bytes stm' = rest
                              \<and> fz_tell stm' = fz_tell stm + 8
         | (Inl e, stm') \<Rightarrow> False"
    unfolding bs by (rule uint64_value)
  from assms show "case fz_read_uint64_le stm of
           (Inr v, stm') \<Rightarrow> unat v = le_value bs \<and> next_bytes stm' = rest
                              \<and> fz_tell stm' = fz_tell stm + 8
         | (Inl e, stm') \<Rightarrow> False"
    unfolding bs by (rule uint64_le_value)
qed

text \<open>
  The bytes \<open>0x12, 0x34\<close>, delivered by one pull, decode to \<open>0x1234\<close> big-endian and to
  \<open>0x3412\<close> little-endian.  The bytes \<open>1, 2, ..., 8\<close>, delivered by two pulls, decode
  to \<open>0x010203\<close>, \<open>0x01020304\<close> and \<open>0x0102030405060708\<close> big-endian, and to the same
  bytes in reverse order little-endian.
\<close>

theorem decoders_concatenate_bytes_witness:
  "(case fz_read_uint16
           \<lparr>window = [], pos = 0, eof = False, avail = 0, source = [Data 0x12 [0x34]]\<rparr> of
      (Inr v, stm') \<Rightarrow> unat v = 0x1234 \<and> next_bytes stm' = [] \<and> fz_tell stm' = 2
    | (Inl e, stm') \<Rightarrow> False)
   \<and> (case fz_read_uint16_le
           \<lparr>window = [], pos = 0, eof = False, avail = 0, source = [Data 0x12 [0x34]]\<rparr> of
      (Inr v, stm') \<Rightarrow> unat v = 0x3412 \<and> next_bytes stm' = [] \<and> fz_tell stm' = 2
    | (Inl e, stm') \<Rightarrow> False)
   \<and> (case fz_read_uint24
           \<lparr>window = [], pos = 0, eof = False, avail = 0,
              source = [Data 1 [2, 3], Data 4 [5, 6, 7, 8]]\<rparr> of
      (Inr v, stm') \<Rightarrow> unat v = 0x010203 \<and> next_bytes stm' = [4, 5, 6, 7, 8]
                         \<and> fz_tell stm' = 3
    | (Inl e, stm') \<Rightarrow> False)
   \<and> (case fz_read_uint24_le
           \<lparr>window = [], pos = 0, eof = False, avail = 0,
              source = [Data 1 [2, 3], Data 4 [5, 6, 7, 8]]\<rparr> of
      (Inr v, stm') \<Rightarrow> unat v = 0x030201 \<and> next_bytes stm' = [4, 5, 6, 7, 8]
                         \<and> fz_tell stm' = 3
    | (Inl e, stm') \<Rightarrow> False)
   \<and> (case fz_read_uint32
           \<lparr>window = [], pos = 0, eof = False, avail = 0,
              source = [Data 1 [2, 3], Data 4 [5, 6, 7, 8]]\<rparr> of
      (Inr v, stm') \<Rightarrow> unat v = 0x01020304 \<and> next_bytes stm' = [5, 6, 7, 8]
                         \<and> fz_tell stm' = 4
    | (Inl e, stm') \<Rightarrow> False)
   \<and> (case fz_read_uint32_le
           \<lparr>window = [], pos = 0, eof = False, avail = 0,
              source = [Data 1 [2, 3], Data 4 [5, 6, 7, 8]]\<rparr> of
      (Inr v, stm') \<Rightarrow> unat v = 0x04030201 \<and> next_bytes stm' = [5, 6, 7, 8]
                         \<and> fz_tell stm' = 4
    | (Inl e, stm') \<Rightarrow> False)
   \<and> (case fz_read_uint64
           \<lparr>window = [], pos = 0, eof = False, avail = 0,
              source = [Data 1 [2, 3], Data 4 [5, 6, 7, 8]]\<rparr> of
      (Inr v, stm') \<Rightarrow> unat v = 0x0102030405060708 \<and> next_bytes stm' = []
                         \<and> fz_tell stm' = 8
    | (Inl e, stm') \<Rightarrow> False)
   \<and> (case fz_read_uint64_le
           \<lparr>window = [], pos = 0, eof = False, avail = 0,
              source = [Data 1 [2, 3], Data 4 [5, 6, 7, 8]]\<rparr> of
      (Inr v, stm') \<Rightarrow> unat v = 0x0807060504030201 \<and> next_bytes stm' = []
                         \<and> fz_tell stm' = 8
    | (Inl e, stm') \<Rightarrow> False)"
proof -
  let ?two = "\<lparr>window = [], pos = 0, eof = False, avail = 0, source = [Data 0x12 [0x34]]\<rparr>"
  let ?eight = "\<lparr>window = [], pos = 0, eof = False, avail = 0,
              source = [Data 1 [2, 3], Data 4 [5, 6, 7, 8]]\<rparr>"
  have two: "next_bytes ?two = [0x12, 0x34] @ []" "fz_tell ?two = 0"
    by (simp_all add: next_bytes_def fz_tell_def)
  have eight: "next_bytes ?eight = [1, 2, 3] @ [4, 5, 6, 7, 8]"
    "next_bytes ?eight = [1, 2, 3, 4] @ [5, 6, 7, 8]"
    "next_bytes ?eight = [1, 2, 3, 4, 5, 6, 7, 8] @ []"
    "fz_tell ?eight = 0"
    by (simp_all add: next_bytes_def fz_tell_def)
  have v: "be_value [0x12, 0x34] = 0x1234" "le_value [0x12, 0x34] = 0x3412"
    "be_value [1, 2, 3] = 0x010203" "le_value [1, 2, 3] = 0x030201"
    "be_value [1, 2, 3, 4] = 0x01020304" "le_value [1, 2, 3, 4] = 0x04030201"
    "be_value [1, 2, 3, 4, 5, 6, 7, 8] = 0x0102030405060708"
    "le_value [1, 2, 3, 4, 5, 6, 7, 8] = 0x0807060504030201"
    by (simp_all add: be_value_def le_value_def)
  from decoders_concatenate_bytes [OF two(1)] decoders_concatenate_bytes [OF eight(1)]
    decoders_concatenate_bytes [OF eight(2)] decoders_concatenate_bytes [OF eight(3)]
  show ?thesis
    by (simp add: v two(2) eight(4) split: prod.splits sum.splits)
qed

text \<open>
  Claim C8.  When the source ends without throwing and the stream holds fewer bytes than
  the decoder's width asks for, the decoder throws the generic error with the message of
  its width; the bytes that were there have been consumed all the same (the stream is
  left empty and \<open>fz_tell\<close> has moved past them), and no value is returned.
\<close>

theorem short_stream_decode_throws:
  assumes "next_failure stm = None"
  shows
    "(length (next_bytes stm) < 2 \<longrightarrow>
        (case fz_read_uint16 stm of
           (r, stm') \<Rightarrow> r = Inl (FZ_ERROR_GENERIC, ''premature end of file in int16'')
                         \<and> next_bytes stm' = []
                         \<and> fz_tell stm' = fz_tell stm + int (length (next_bytes stm)))
      \<and> (case fz_read_uint16_le stm of
           (r, stm') \<Rightarrow> r = Inl (FZ_ERROR_GENERIC, ''premature end of file in int16'')
                         \<and> next_bytes stm' = []
                         \<and> fz_tell stm' = fz_tell stm + int (length (next_bytes stm))))
   \<and> (length (next_bytes stm) < 3 \<longrightarrow>
        (case fz_read_uint24 stm of
           (r, stm') \<Rightarrow> r = Inl (FZ_ERROR_GENERIC, ''premature end of file in int24'')
                         \<and> next_bytes stm' = []
                         \<and> fz_tell stm' = fz_tell stm + int (length (next_bytes stm)))
      \<and> (case fz_read_uint24_le stm of
           (r, stm') \<Rightarrow> r = Inl (FZ_ERROR_GENERIC, ''premature end of file in int24'')
                         \<and> next_bytes stm' = []
                         \<and> fz_tell stm' = fz_tell stm + int (length (next_bytes stm))))
   \<and> (length (next_bytes stm) < 4 \<longrightarrow>
        (case fz_read_uint32 stm of
           (r, stm') \<Rightarrow> r = Inl (FZ_ERROR_GENERIC, ''premature end of file in int32'')
                         \<and> next_bytes stm' = []
                         \<and> fz_tell stm' = fz_tell stm + int (length (next_bytes stm)))
      \<and> (case fz_read_uint32_le stm of
           (r, stm') \<Rightarrow> r = Inl (FZ_ERROR_GENERIC, ''premature end of file in int32'')
                         \<and> next_bytes stm' = []
                         \<and> fz_tell stm' = fz_tell stm + int (length (next_bytes stm))))
   \<and> (length (next_bytes stm) < 8 \<longrightarrow>
        (case fz_read_uint64 stm of
           (r, stm') \<Rightarrow> r = Inl (FZ_ERROR_GENERIC, ''premature end of file in int64'')
                         \<and> next_bytes stm' = []
                         \<and> fz_tell stm' = fz_tell stm + int (length (next_bytes stm)))
      \<and> (case fz_read_uint64_le stm of
           (r, stm') \<Rightarrow> r = Inl (FZ_ERROR_GENERIC, ''premature end of file in int64'')
                         \<and> next_bytes stm' = []
                         \<and> fz_tell stm' = fz_tell stm + int (length (next_bytes stm))))"
  using assms
  by (intro conjI impI)
     (rule uint16_short uint16_le_short uint24_short uint24_le_short
           uint32_short uint32_le_short uint64_short uint64_le_short; assumption)+

text \<open>
  A 32-bit decode from a stream with only the two bytes \<open>1, 2\<close> left: it throws, and both
  bytes are gone.  So do the 24-bit and 64-bit decodes on that stream, and the 16-bit
  decode on a stream with one byte left.
\<close>

theorem short_stream_decode_throws_witness:
  "(case fz_read_uint32
           \<lparr>window = [], pos = 0, eof = False, avail = 0, source = [Data 1 [2]]\<rparr> of
      (r, stm') \<Rightarrow> r = Inl (FZ_ERROR_GENERIC, ''premature end of file in int32'')
                    \<and> next_bytes stm' = [] \<and> fz_tell stm' = 2)
   \<and> (case fz_read_uint32_le
           \<lparr>window = [], pos = 0, eof = False, avail = 0, source = [Data 1 [2]]\<rparr> of
      (r, stm') \<Rightarrow> r = Inl (FZ_ERROR_GENERIC, ''premature end of file in int32'')
                    \<and> next_bytes stm' = [] \<and> fz_tell stm' = 2)
   \<and> (case fz_read_uint24
           \<lparr>window = [], pos = 0, eof = False, avail = 0, source = [Data 1 [2]]\<rparr> of
      (r, stm') \<Rightarrow> r = Inl (FZ_ERROR_GENERIC, ''premature end of file in int24'')
                    \<and> next_bytes stm' = [] \<and> fz_tell stm' = 2)
   \<and> (case fz_read_uint24_le
           \<lparr>window = [], pos = 0, eof = False, avail = 0, source = [Data 1 [2]]\<rparr> of
      (r, stm') \<Rightarrow> r = Inl (FZ_ERROR_GENERIC, ''premature end of file in int24'')
                    \<and> next_bytes stm' = [] \<and> fz_tell stm' = 2)
   \<and> (case fz_read_uint64
           \<lparr>window = [], pos = 0, eof = False, avail = 0, source = [Data 1 [2]]\<rparr> of
      (r, stm') \<Rightarrow> r = Inl (FZ_ERROR_GENERIC, ''premature end of file in int64'')
                    \<and> next_bytes stm' = [] \<and> fz_tell stm' = 2)
   \<and> (case fz_read_uint64_le
           \<lparr>window = [], pos = 0, eof = False, avail = 0, source = [Data 1 [2]]\<rparr> of
      (r, stm') \<Rightarrow> r = Inl (FZ_ERROR_GENERIC, ''premature end of file in int64'')
                    \<and> next_bytes stm' = [] \<and> fz_tell stm' = 2)
   \<and> (case fz_read_uint16
           \<lparr>window = [9], pos = 1, eof = False, avail = 0, source = []\<rparr> of
      (r, stm') \<Rightarrow> r = Inl (FZ_ERROR_GENERIC, ''premature end of file in int16'')
                    \<and> next_bytes stm' = [] \<and> fz_tell stm' = 1)
   \<and> (case fz_read_uint16_le
           \<lparr>window = [9], pos = 1, eof = False, avail = 0, source = []\<rparr> of
      (r, stm') \<Rightarrow> r = Inl (FZ_ERROR_GENERIC, ''premature end of file in int16'')
                    \<and> next_bytes stm' = [] \<and> fz_tell stm' = 1)"
proof -
  let ?two = "\<lparr>window = [], pos = 0, eof = False, avail = 0, source = [Data 1 [2]]\<rparr>"
  let ?one = "\<lparr>window = [9], pos = 1, eof = False, avail = 0, source = []\<rparr> :: fz_stream"
  have two: "next_failure ?two = None" "next_bytes ?two = [1, 2]" "fz_tell ?two = 0"
    by (simp_all add: next_failure_def next_bytes_def fz_tell_def)
  have one: "next_failure ?one = None" "next_bytes ?one = [9]" "fz_tell ?one = 0"
    by (simp_all add: next_failure_def next_bytes_def fz_tell_def)
  from short_stream_decode_throws [OF two(1)] short_stream_decode_throws [OF one(1)]
  show ?thesis
    by (simp add: two one split: prod.splits)
qed

section \<open>Properties of the bulk read\<close>

lemma fz_available_view:
  "case fz_available stm len of
     (Inr n, stm1) \<Rightarrow>
        n = length (window stm1) \<and> next_bytes stm1 = next_bytes stm
        \<and> next_failure stm1 = next_failure stm \<and> fz_tell stm1 = fz_tell stm
        \<and> (n = 0 \<longrightarrow> next_bytes stm = [] \<and> next_failure stm = None)
   | (Inl e, stm1) \<Rightarrow> next_failure stm = Some e \<and> next_bytes stm = []"
  by (cases "source stm" rule: upcoming.cases)
     (auto simp: fz_available_def next_bytes_def next_failure_def fz_tell_def)

lemma consume_window_view:
  assumes "n \<le> length (window stm1)"
  shows "next_bytes (stm1\<lparr>window := drop n (window stm1)\<rparr>) = drop n (next_bytes stm1)"
    and "next_failure (stm1\<lparr>window := drop n (window stm1)\<rparr>) = next_failure stm1"
    and "fz_tell (stm1\<lparr>window := drop n (window stm1)\<rparr>) = fz_tell stm1 + int n"
    and "take n (window stm1) = take n (next_bytes stm1)"
  using assms by (auto simp: next_bytes_def next_failure_def fz_tell_def)

lemma fz_read_loop_view:
  "case fz_read_loop stm buf count len of
     (Inr (count', buf'), stm') \<Rightarrow>
        count' = count + min len (length (next_bytes stm))
        \<and> buf' = buf @ take len (next_bytes stm)
        \<and> next_bytes stm' = drop len (next_bytes stm)
        \<and> next_failure stm' = next_failure stm
        \<and> fz_tell stm' = fz_tell stm + int (min len (length (next_bytes stm)))
   | (Inl e, stm') \<Rightarrow>
        next_failure stm = Some e \<and> (len = 0 \<or> length (next_bytes stm) < len)"
proof (induction stm buf count len rule: fz_read_loop.induct)
  case (1 stm buf count len)
  obtain r stm1 where av: "fz_available stm len = (r, stm1)"
    by (cases "fz_available stm len")
  show ?case
  proof (cases r)
    case (Inl e)
    with av fz_available_view [of stm len] show ?thesis
      by (auto simp: fz_read_loop.simps [of stm])
  next
    case (Inr n0)
    define n where "n = (if n0 > len then len else n0)"
    from av Inr fz_available_view [of stm len]
    have v: "n0 = length (window stm1)" "next_bytes stm1 = next_bytes stm"
      "next_failure stm1 = next_failure stm" "fz_tell stm1 = fz_tell stm"
      "n0 = 0 \<longrightarrow> next_bytes stm = [] \<and> next_failure stm = None"
      by simp_all
    have nle: "n \<le> length (window stm1)" "n \<le> len"
      using v(1) by (simp_all add: n_def)
    have wle: "length (window stm1) \<le> length (next_bytes stm)"
      unfolding v(2) [symmetric] by (simp add: next_bytes_def)
    let ?stm2 = "stm1\<lparr>window := drop n (window stm1)\<rparr>"
    note c = consume_window_view [OF nle(1)]
    show ?thesis
    proof (cases "n = 0")
      case True
      then have "len = 0 \<or> next_bytes stm = []"
        using v(1,5) by (auto simp: n_def split: if_splits)
      with True av Inr v show ?thesis
        by (auto simp: fz_read_loop.simps [of stm] n_def Let_def)
    next
      case n0: False
      show ?thesis
      proof (cases "len - n > 0")
        case True
        have step: "fz_read_loop stm buf count len =
                fz_read_loop ?stm2 (buf @ take n (window stm1)) (count + n) (len - n)"
          using av Inr n0 True by (simp add: fz_read_loop.simps [of stm] n_def Let_def)
        have nn: "n = length (window stm1)"
          using True v(1) by (auto simp: n_def split: if_splits)
        have mn: "min (len - n) (length (next_bytes stm) - n) + n = min len (length (next_bytes stm))"
          using nle wle nn by auto
        have tk: "take n (next_bytes stm) @ take (len - n) (drop n (next_bytes stm))
                    = take len (next_bytes stm)"
          using nle(2) by (metis le_add_diff_inverse take_add)
        have ih: "case fz_read_loop ?stm2 (buf @ take n (window stm1)) (count + n) (len - n) of
            (Inr (count', buf'), stm') \<Rightarrow>
               count' = (count + n) + min (len - n) (length (next_bytes ?stm2))
               \<and> buf' = (buf @ take n (window stm1)) @ take (len - n) (next_bytes ?stm2)
               \<and> next_bytes stm' = drop (len - n) (next_bytes ?stm2)
               \<and> next_failure stm' = next_failure ?stm2
               \<and> fz_tell stm' = fz_tell ?stm2 + int (min (len - n) (length (next_bytes ?stm2)))
          | (Inl e, stm') \<Rightarrow>
               next_failure ?stm2 = Some e
               \<and> (len - n = 0 \<or> length (next_bytes ?stm2) < len - n)"
          by (rule "1.IH" [OF av [symmetric] Inr n_def n0 refl refl refl refl True])
        show ?thesis
          unfolding step using ih nle wle mn tk True
          by (auto simp: c v split: prod.splits sum.splits)
      next
        case False
        then have "n = len" using nle by simp
        with False av Inr n0 v c nle wle show ?thesis
          by (auto simp: fz_read_loop.simps [of stm] n_def Let_def min_def)
      qed
    qed
  qed
qed

text \<open>
  Claim C4.  \<open>fz_read\<close> is characterised completely.  When it returns, the count is the
  number of bytes copied, the bytes are the next \<open>len\<close> bytes of the stream or, if the
  stream holds fewer, all of them (so the count is \<open>len\<close> or the number of bytes that were
  left), and the stream and \<open>fz_tell\<close> have advanced by exactly the count.  It throws only
  what the source throws, and only when the source does so before \<open>len\<close> bytes were
  found; the end of the stream alone never makes it throw.
\<close>

theorem fz_read_short_count_not_error:
  "case fz_read stm len of
     (Inr (count, bytes), stm') \<Rightarrow>
        count = length bytes
        \<and> count = min len (length (next_bytes stm))
        \<and> bytes = take len (next_bytes stm)
        \<and> next_bytes stm' = drop len (next_bytes stm)
        \<and> fz_tell stm' = fz_tell stm + int count
   | (Inl e, stm') \<Rightarrow>
        next_failure stm = Some e \<and> (len = 0 \<or> length (next_bytes stm) < len)"
  using fz_read_loop_view [where stm = stm and buf = "[]" and count = 0 and len = len]
  by (auto simp: fz_read_def min_def split: prod.splits sum.splits)

text \<open>
  Asking for 5 bytes from a stream that holds the 3 bytes \<open>1, 2, 3\<close> (delivered by two
  pulls) returns 3 and those bytes.
\<close>

theorem fz_read_short_count_not_error_witness:
  "fz_read \<lparr>window = [], pos = 0, eof = False, avail = 0, source = [Data 1 [2], Data 3 []]\<rparr> 5
     = (Inr (3, [1, 2, 3]),
        \<lparr>window = [], pos = 3, eof = True, avail = 0, source = []\<rparr>)"
proof -
  let ?stm = "\<lparr>window = [], pos = 0, eof = False, avail = 0, source = [Data 1 [2], Data 3 []]\<rparr>"
  have n: "next_bytes ?stm = [1, 2, 3]" "next_failure ?stm = None"
    by (simp_all add: next_bytes_def next_failure_def)
  have "fz_read ?stm 5 = (Inr (3, [1, 2, 3]), snd (fz_read ?stm 5))"
    using fz_read_short_count_not_error [of ?stm 5]
    by (auto simp: n split: prod.splits sum.splits)
  moreover have "snd (fz_read ?stm 5) = \<lparr>window = [], pos = 3, eof = True, avail = 0, source = []\<rparr>"
    by (simp add: fz_read_def fz_read_loop.simps fz_available_def Let_def)
  ultimately show ?thesis by simp
qed

section \<open>Properties of reading a whole stream\<close>

subsection \<open>What the loop consumes from the script of the source\<close>

lemma thrown_append: "thrown (ps @ qs) = thrown ps @ thrown qs"
  by (induction ps rule: thrown.induct) simp_all

lemma in_thrown: "e \<in> set (thrown ps) \<longleftrightarrow> Fail e \<in> set ps"
  by (induction ps rule: thrown.induct) auto

lemma fz_available_trace:
  "fz_available stm len = (r, stm1) \<Longrightarrow>
   \<exists>pre. source stm = pre @ source stm1
         \<and> thrown pre = (case r of Inl e \<Rightarrow> [e] | Inr n \<Rightarrow> [])"
  by (cases "source stm" rule: upcoming.cases)
     (auto simp: fz_available_def split: if_splits)

lemma fz_read_loop_trace:
  "fz_read_loop stm buf count len = (r, stm') \<Longrightarrow>
   \<exists>pre. source stm = pre @ source stm'
         \<and> thrown pre = (case r of Inl e \<Rightarrow> [e] | Inr x \<Rightarrow> [])"
proof (induction stm buf count len rule: fz_read_loop.induct)
  case (1 stm buf count len)
  obtain r1 stm1 where av: "fz_available stm len = (r1, stm1)"
    by (cases "fz_available stm len")
  from fz_available_trace [OF av] obtain pre1 where
    p1: "source stm = pre1 @ source stm1"
        "thrown pre1 = (case r1 of Inl e \<Rightarrow> [e] | Inr n \<Rightarrow> [])"
    by blast
  show ?case
  proof (cases r1)
    case (Inl e)
    with "1.prems" av p1 show ?thesis
      by (auto simp: fz_read_loop.simps [of stm])
  next
    case (Inr n0)
    define n where "n = (if n0 > len then len else n0)"
    let ?stm2 = "stm1\<lparr>window := drop n (window stm1)\<rparr>"
    show ?thesis
    proof (cases "n \<noteq> 0 \<and> len - n > 0")
      case True
      with "1.prems" av Inr
      have call: "fz_read_loop ?stm2 (buf @ take n (window stm1)) (count + n) (len - n) = (r, stm')"
        by (simp add: fz_read_loop.simps [of stm] n_def Let_def)
      from True have n0: "n \<noteq> 0" and pos: "0 < len - n" by simp_all
      from "1.IH" [OF av [symmetric] Inr n_def n0 refl refl refl refl pos call]
      obtain pre2 where
        p2: "source ?stm2 = pre2 @ source stm'"
            "thrown pre2 = (case r of Inl e \<Rightarrow> [e] | Inr x \<Rightarrow> [])"
        by blast
      from p1 p2 Inr have "source stm = (pre1 @ pre2) @ source stm'"
        and "thrown (pre1 @ pre2) = (case r of Inl e \<Rightarrow> [e] | Inr x \<Rightarrow> [])"
        by (simp_all add: thrown_append)
      then show ?thesis by blast
    next
      case False
      with "1.prems" av Inr p1 show ?thesis
        by (auto simp: fz_read_loop.simps [of stm] n_def Let_def split: if_splits)
    qed
  qed
qed

lemma read_best_loop_unfold:
  "read_best_loop grow check_bomb initial buf stm =
     (if check_bomb
         \<and> length (data (if length (data buf) = cap buf then fz_grow_buffer grow buf else buf))
             \<ge> MIN_BOMB
         \<and> length (data (if length (data buf) = cap buf then fz_grow_buffer grow buf else buf))
             div 200 > initial
      then (Inl bomb_detected,
            (if length (data buf) = cap buf then fz_grow_buffer grow buf else buf), stm)
      else
        (case fz_read stm
                (cap (if length (data buf) = cap buf then fz_grow_buffer grow buf else buf)
                 - length (data (if length (data buf) = cap buf then fz_grow_buffer grow buf
                                 else buf))) of
           (Inl e, stm') \<Rightarrow>
             (Inl e, (if length (data buf) = cap buf then fz_grow_buffer grow buf else buf), stm')
         | (Inr (n, bytes), stm') \<Rightarrow>
             if n = 0
             then (Inr (), (if length (data buf) = cap buf then fz_grow_buffer grow buf else buf),
                   stm')
             else read_best_loop grow check_bomb initial
                    ((if length (data buf) = cap buf then fz_grow_buffer grow buf else buf)
                       \<lparr>data := data (if length (data buf) = cap buf
                                        then fz_grow_buffer grow buf else buf) @ bytes\<rparr>) stm'))"
  by (subst read_best_loop.simps) (simp only: Let_def)

lemma read_best_loop_trace:
  "read_best_loop grow check_bomb initial buf stm = (r, buf', stm') \<Longrightarrow>
   \<exists>pre. source stm = pre @ source stm'
         \<and> (case r of
               Inl e \<Rightarrow> thrown pre = [e] \<or> (thrown pre = [] \<and> e = bomb_detected \<and> check_bomb)
             | Inr u \<Rightarrow> thrown pre = [])"
proof (induction grow check_bomb initial buf stm rule: read_best_loop.induct)
  case (1 grow check_bomb initial buf stm)
  define buf1 where "buf1 = (if length (data buf) = cap buf then fz_grow_buffer grow buf else buf)"
  note run = "1.prems" [unfolded read_best_loop_unfold [of grow check_bomb initial buf stm],
                        folded buf1_def]
  show ?case
  proof (cases "check_bomb \<and> length (data buf1) \<ge> MIN_BOMB \<and> length (data buf1) div 200 > initial")
    case True
    with run have "r = Inl bomb_detected" "stm' = stm"
      by simp_all
    with True show ?thesis by simp
  next
    case nobomb: False
    obtain r1 stm1 where rd: "fz_read stm (cap buf1 - length (data buf1)) = (r1, stm1)"
      by (cases "fz_read stm (cap buf1 - length (data buf1))")
    from fz_read_loop_trace [OF rd [unfolded fz_read_def]] obtain pre1 where
      p1: "source stm = pre1 @ source stm1"
          "thrown pre1 = (case r1 of Inl e \<Rightarrow> [e] | Inr x \<Rightarrow> [])"
      by blast
    show ?thesis
    proof (cases r1)
      case (Inl e)
      with run nobomb rd have "r = Inl e" "stm' = stm1"
        by simp_all
      with p1 Inl show ?thesis by auto
    next
      case (Inr x)
      obtain n bytes where x: "x = (n, bytes)" by (cases x)
      show ?thesis
      proof (cases "n = 0")
        case True
        with run nobomb rd Inr x have "r = Inr ()" "stm' = stm1"
          by simp_all
        with p1 Inr show ?thesis by auto
      next
        case False
        with run nobomb rd Inr x
        have call: "read_best_loop grow check_bomb initial (buf1\<lparr>data := data buf1 @ bytes\<rparr>) stm1
                      = (r, buf', stm')"
          by simp
        from "1.IH" [OF buf1_def nobomb rd [symmetric] Inr x [symmetric] False call]
        obtain pre2 where
          p2: "source stm1 = pre2 @ source stm'"
              "case r of
                 Inl e \<Rightarrow> thrown pre2 = [e] \<or> (thrown pre2 = [] \<and> e = bomb_detected \<and> check_bomb)
               | Inr u \<Rightarrow> thrown pre2 = []"
          by blast
        from p1 p2 Inr have "source stm = (pre1 @ pre2) @ source stm'"
          and "case r of
                 Inl e \<Rightarrow> thrown (pre1 @ pre2) = [e]
                          \<or> (thrown (pre1 @ pre2) = [] \<and> e = bomb_detected \<and> check_bomb)
               | Inr u \<Rightarrow> thrown (pre1 @ pre2) = []"
          by (auto simp: thrown_append split: sum.splits)
        then show ?thesis by blast
      qed
    qed
  qed
qed

lemma read_best_try_trace:
  "read_best_try grow check_bomb stm initial = (r, buf', stm') \<Longrightarrow>
   \<exists>pre. source stm = pre @ source stm'
         \<and> (case r of
               Inl e \<Rightarrow> thrown pre = [e] \<or> (thrown pre = [] \<and> e = bomb_detected \<and> check_bomb)
             | Inr u \<Rightarrow> thrown pre = [])"
  unfolding read_best_try_def Let_def by (rule read_best_loop_trace)

lemma pulled_error_is_thrown:
  assumes "read_best_try grow check_bomb stm initial = (r0, buf0, stm0)"
    and "source stm = pre @ source stm0"
    and "Fail e \<in> set pre"
  shows "r0 = Inl e"
proof -
  from read_best_try_trace [OF assms(1)] obtain pre0 where
    p0: "source stm = pre0 @ source stm0"
        "case r0 of
           Inl e \<Rightarrow> thrown pre0 = [e] \<or> (thrown pre0 = [] \<and> e = bomb_detected \<and> check_bomb)
         | Inr u \<Rightarrow> thrown pre0 = []"
    by blast
  from p0(1) assms(2) have "pre0 = pre" by simp
  with assms(3) have "e \<in> set (thrown pre0)"
    by (simp add: in_thrown)
  with p0(2) show ?thesis
    by (cases r0) auto
qed

lemma fz_read_best_stream:
  assumes "fz_read_best grow stm initial truncated = (r, t, stm')"
    and "read_best_try grow (0 < initial) stm initial = (r0, buf0, stm0)"
  shows "stm' = stm0"
  using assms
  by (auto simp: fz_read_best_def Let_def split: sum.splits if_splits option.splits)

subsection \<open>What the loop puts into the buffer\<close>

lemma fz_read_view:
  "case fz_read stm len of
     (Inr (n, bytes), stm') \<Rightarrow>
        n = length bytes
        \<and> n = min len (length (next_bytes stm))
        \<and> bytes = take len (next_bytes stm)
        \<and> next_bytes stm' = drop len (next_bytes stm)
        \<and> next_failure stm' = next_failure stm
   | (Inl e, stm') \<Rightarrow> next_failure stm = Some e"
  using fz_read_loop_view [where stm = stm and buf = "[]" and count = 0 and len = len]
  by (auto simp: fz_read_def min_def split: prod.splits sum.splits)

text \<open>
  For any stream: the buffer only gains bytes of the stream, in order; and an exception
  out of the loop is either the bomb check's (then the check is armed and the content has
  passed both thresholds) or the first error of the source.
\<close>

lemma read_best_loop_view:
  "read_best_loop grow check_bomb initial buf stm = (r, buf', stm') \<Longrightarrow>
   (\<exists>k. data buf' = data buf @ take k (next_bytes stm))
   \<and> (case r of
         Inl e \<Rightarrow>
           (check_bomb \<and> e = bomb_detected \<and> MIN_BOMB \<le> length (data buf')
              \<and> initial < length (data buf') div 200)
           \<or> next_failure stm = Some e
       | Inr u \<Rightarrow> True)"
proof (induction grow check_bomb initial buf stm rule: read_best_loop.induct)
  case (1 grow check_bomb initial buf stm)
  define buf1 where "buf1 = (if length (data buf) = cap buf then fz_grow_buffer grow buf else buf)"
  have d1: "data buf1 = data buf"
    by (simp add: buf1_def fz_grow_buffer_def)
  note run = "1.prems" [unfolded read_best_loop_unfold [of grow check_bomb initial buf stm],
                        folded buf1_def]
  show ?case
  proof (cases "check_bomb \<and> length (data buf1) \<ge> MIN_BOMB \<and> length (data buf1) div 200 > initial")
    case True
    with run have "r = Inl bomb_detected" "buf' = buf1"
      by simp_all
    moreover have "data buf1 = data buf @ take 0 (next_bytes stm)"
      by (simp add: d1)
    ultimately show ?thesis using True by auto
  next
    case nobomb: False
    obtain r1 stm1 where rd: "fz_read stm (cap buf1 - length (data buf1)) = (r1, stm1)"
      by (cases "fz_read stm (cap buf1 - length (data buf1))")
    note v = fz_read_view [of stm "cap buf1 - length (data buf1)", unfolded rd]
    have k0: "data buf1 = data buf @ take 0 (next_bytes stm)"
      by (simp add: d1)
    show ?thesis
    proof (cases r1)
      case (Inl e)
      with run nobomb rd have "r = Inl e" "buf' = buf1"
        by simp_all
      with v Inl k0 show ?thesis by auto
    next
      case (Inr x)
      obtain n bytes where x: "x = (n, bytes)" by (cases x)
      show ?thesis
      proof (cases "n = 0")
        case True
        with run nobomb rd Inr x have "r = Inr ()" "buf' = buf1"
          by simp_all
        with k0 show ?thesis by auto
      next
        case False
        let ?len = "cap buf1 - length (data buf1)"
        from v Inr x have b: "bytes = take ?len (next_bytes stm)"
          and nb: "next_bytes stm1 = drop ?len (next_bytes stm)"
          and nf: "next_failure stm1 = next_failure stm"
          by simp_all
        from False run nobomb rd Inr x
        have call: "read_best_loop grow check_bomb initial (buf1\<lparr>data := data buf1 @ bytes\<rparr>) stm1
                      = (r, buf', stm')"
          by simp
        from "1.IH" [OF buf1_def nobomb rd [symmetric] Inr x [symmetric] False call]
        obtain k where
          ih: "data buf' = data (buf1\<lparr>data := data buf1 @ bytes\<rparr>) @ take k (next_bytes stm1)"
              "case r of
                 Inl e \<Rightarrow>
                   (check_bomb \<and> e = bomb_detected \<and> MIN_BOMB \<le> length (data buf')
                      \<and> initial < length (data buf') div 200)
                   \<or> next_failure stm1 = Some e
               | Inr u \<Rightarrow> True"
          by blast
        have "data buf' = data buf @ take (?len + k) (next_bytes stm)"
          using ih(1) by (simp add: d1 b nb take_add)
        with ih(2) [unfolded nf] show ?thesis by blast
      qed
    qed
  qed
qed

text \<open>
  For any stream and any growth policy: unless the source itself throws an error that
  reads like the bomb error, the loop ends with the bomb error exactly when the check is
  armed and the content of the buffer, as the loop leaves it, has passed both thresholds.
\<close>

lemma read_best_loop_bomb_iff:
  "read_best_loop grow check_bomb initial buf stm = (r, buf', stm') \<Longrightarrow>
   next_failure stm \<noteq> Some bomb_detected \<Longrightarrow>
   (r = Inl bomb_detected
      \<longleftrightarrow> check_bomb \<and> MIN_BOMB \<le> length (data buf')
          \<and> initial < length (data buf') div 200)"
proof (induction grow check_bomb initial buf stm rule: read_best_loop.induct)
  case (1 grow check_bomb initial buf stm)
  define buf1 where "buf1 = (if length (data buf) = cap buf then fz_grow_buffer grow buf else buf)"
  note run = "1.prems"(1) [unfolded read_best_loop_unfold [of grow check_bomb initial buf stm],
                           folded buf1_def]
  show ?case
  proof (cases "check_bomb \<and> length (data buf1) \<ge> MIN_BOMB \<and> length (data buf1) div 200 > initial")
    case True
    with run have "r = Inl bomb_detected" "buf' = buf1"
      by simp_all
    with True show ?thesis by simp
  next
    case nobomb: False
    obtain r1 stm1 where rd: "fz_read stm (cap buf1 - length (data buf1)) = (r1, stm1)"
      by (cases "fz_read stm (cap buf1 - length (data buf1))")
    note v = fz_read_view [of stm "cap buf1 - length (data buf1)", unfolded rd]
    show ?thesis
    proof (cases r1)
      case (Inl e)
      with run nobomb rd have "r = Inl e" "buf' = buf1"
        by simp_all
      moreover from v Inl "1.prems"(2) have "e \<noteq> bomb_detected"
        by auto
      ultimately show ?thesis using nobomb by auto
    next
      case (Inr x)
      obtain n bytes where x: "x = (n, bytes)" by (cases x)
      show ?thesis
      proof (cases "n = 0")
        case True
        with run nobomb rd Inr x have "r = Inr ()" "buf' = buf1"
          by simp_all
        with nobomb show ?thesis by auto
      next
        case False
        from v Inr x have nf: "next_failure stm1 = next_failure stm"
          by simp
        from False run nobomb rd Inr x
        have call: "read_best_loop grow check_bomb initial (buf1\<lparr>data := data buf1 @ bytes\<rparr>) stm1
                      = (r, buf', stm')"
          by simp
        from "1.prems"(2) nf have "next_failure stm1 \<noteq> Some bomb_detected"
          by simp
        from "1.IH" [OF buf1_def nobomb rd [symmetric] Inr x [symmetric] False call this]
        show ?thesis .
      qed
    qed
  qed
qed

text \<open>
  For a stream whose source ends without throwing, and a growth policy that enlarges
  every buffer of capacity \<open>c0\<close> or more, \<open>c0\<close> being no more than the capacity of the
  buffer at hand: the loop either reads everything, or stops at the bomb check; and it
  stops there exactly when the check is armed and the whole size passes both thresholds.
\<close>

lemma read_best_loop_clean:
  assumes "next_failure stm = None"
    and "\<forall>c. c0 \<le> c \<longrightarrow> c < grow c"
    and "length (data buf) \<le> cap buf \<and> c0 \<le> cap buf"
    and "read_best_loop grow check_bomb initial buf stm = (r, buf', stm')"
  shows "if check_bomb \<and> MIN_BOMB \<le> length (data buf) + length (next_bytes stm)
            \<and> initial < (length (data buf) + length (next_bytes stm)) div 200
         then r = Inl bomb_detected
         else r = Inr () \<and> data buf' = data buf @ next_bytes stm \<and> next_bytes stm' = []"
  using assms
proof (induction grow check_bomb initial buf stm rule: read_best_loop.induct)
  case (1 grow check_bomb initial buf stm)
  define buf1 where "buf1 = (if length (data buf) = cap buf then fz_grow_buffer grow buf else buf)"
  have d1: "data buf1 = data buf"
    by (simp add: buf1_def fz_grow_buffer_def)
  have room: "length (data buf1) < cap buf1" and big: "c0 \<le> cap buf1"
    using "1.prems"(2) [rule_format, of "cap buf"] "1.prems"(3)
    by (auto simp: buf1_def fz_grow_buffer_def)
  note run = "1.prems"(4) [unfolded read_best_loop_unfold [of grow check_bomb initial buf stm],
                           folded buf1_def]
  let ?N = "length (data buf) + length (next_bytes stm)"
  show ?case
  proof (cases "check_bomb \<and> length (data buf1) \<ge> MIN_BOMB \<and> length (data buf1) div 200 > initial")
    case True
    with run have r: "r = Inl bomb_detected"
      by simp
    have "length (data buf1) div 200 \<le> ?N div 200"
      by (rule div_le_mono) (simp add: d1)
    with True have "check_bomb \<and> MIN_BOMB \<le> ?N \<and> initial < ?N div 200"
      by (simp add: d1)
    with r show ?thesis by simp
  next
    case nobomb: False
    let ?len = "cap buf1 - length (data buf1)"
    obtain r1 stm1 where rd: "fz_read stm ?len = (r1, stm1)"
      by (cases "fz_read stm ?len")
    note v = fz_read_view [of stm ?len, unfolded rd]
    from v "1.prems"(1) obtain n bytes where r1: "r1 = Inr (n, bytes)"
      by (cases r1) auto
    from v r1 have n: "n = min ?len (length (next_bytes stm))"
      and b: "bytes = take ?len (next_bytes stm)"
      and nb: "next_bytes stm1 = drop ?len (next_bytes stm)"
      and nf: "next_failure stm1 = next_failure stm"
      and nl: "n = length bytes"
      by simp_all
    show ?thesis
    proof (cases "n = 0")
      case True
      with n room have e: "next_bytes stm = []"
        by (auto simp: min_def split: if_splits)
      from True run nobomb rd r1 have "r = Inr ()" "buf' = buf1" "stm' = stm1"
        by simp_all
      with nobomb e nb d1 show ?thesis by auto
    next
      case False
      let ?buf2 = "buf1\<lparr>data := data buf1 @ bytes\<rparr>"
      from False run nobomb rd r1
      have call: "read_best_loop grow check_bomb initial ?buf2 stm1 = (r, buf', stm')"
        by simp
      have fit: "length (data ?buf2) \<le> cap ?buf2 \<and> c0 \<le> cap ?buf2"
        using n nl room big by (simp add: min_def split: if_splits)
      have same: "length (data ?buf2) + length (next_bytes stm1) = ?N"
        using nb b by (simp add: d1 min_def)
      have cat: "data ?buf2 @ next_bytes stm1 = data buf @ next_bytes stm"
        using nb b by (simp add: d1)
      from "1.IH" [OF buf1_def nobomb rd [symmetric] r1 refl False _ "1.prems"(2) fit call]
           "1.prems"(1) nf
      have "if check_bomb \<and> MIN_BOMB \<le> length (data ?buf2) + length (next_bytes stm1)
               \<and> initial < (length (data ?buf2) + length (next_bytes stm1)) div 200
            then r = Inl bomb_detected
            else r = Inr () \<and> data buf' = data ?buf2 @ next_bytes stm1 \<and> next_bytes stm' = []"
        by simp
      then show ?thesis
        unfolding same cat .
    qed
  qed
qed

subsection \<open>The bomb check\<close>

lemma MIN_BOMB_value: "MIN_BOMB = 104857600"
  by (simp add: MIN_BOMB_def push_bit_eq_mult)

lemma clamp_is_max: "(if hint < 1024 then 1024 else hint) = max 1024 (hint :: nat)"
  by simp

lemma bomb_condition_clamped:
  "0 < hint \<Longrightarrow>
   (MIN_BOMB \<le> N \<and> max 1024 hint < N div 200)
     \<longleftrightarrow> (MIN_BOMB \<le> N \<and> hint < N div 200)"
  unfolding MIN_BOMB_value by (cases "hint < 1024") auto

lemma read_best_try_clean:
  assumes "next_failure stm = None"
    and "\<forall>c. size_t (max 1024 hint + 1) \<le> c \<longrightarrow> c < grow c"
    and "read_best_try grow (0 < hint) stm hint = (r, buf', stm')"
  shows "if 0 < hint \<and> MIN_BOMB \<le> length (next_bytes stm)
            \<and> hint < length (next_bytes stm) div 200
         then r = Inl bomb_detected
         else r = Inr () \<and> data buf' = next_bytes stm \<and> next_bytes stm' = []"
proof -
  let ?i = "max 1024 hint"
  let ?b = "fz_new_buffer (size_t (?i + 1))"
  note run = assms(3) [unfolded read_best_try_def Let_def clamp_is_max]
  have fit: "length (data ?b) \<le> cap ?b \<and> size_t (?i + 1) \<le> cap ?b"
    by (simp add: fz_new_buffer_def)
  have d: "data ?b = []"
    by (simp add: fz_new_buffer_def)
  from read_best_loop_clean [OF assms(1) assms(2) fit run]
  have "if 0 < hint \<and> MIN_BOMB \<le> length (next_bytes stm)
            \<and> ?i < length (next_bytes stm) div 200
         then r = Inl bomb_detected
         else r = Inr () \<and> data buf' = next_bytes stm \<and> next_bytes stm' = []"
    by (simp only: d list.size append_Nil add_0)
  then show ?thesis
    using bomb_condition_clamped [of hint "length (next_bytes stm)"]
    by (cases "0 < hint") (simp_all split: if_splits)
qed

text \<open>
  Claim C1, as amended.  Take any stream, any growth policy and a hint that is strictly
  positive, the source not throwing an error that reads like the bomb error itself.  Let
  the block under \<open>fz_try\<close> end with the outcome \<open>r\<close>, the buffer \<open>buf\<close> and the stream
  \<open>stm'\<close>.  Then

    \<^item> the block ends with the bomb error exactly when the content accumulated in the
      buffer is at least \<open>MIN_BOMB\<close> (100 MiB) long and its length divided by 200 exceeds
      the hint;
    \<^item> without \<open>truncated\<close>, \<open>fz_read_best\<close> throws the bomb error under exactly that
      condition;
    \<^item> with \<open>truncated\<close>, under that condition the error is swallowed: the buffer is
      returned and the flag is 1;
    \<^item> the content of the buffer is a prefix of the bytes of the stream;
    \<^item> when moreover the source ends without throwing and the growth policy enlarges
      every buffer that is at least as large as the first one, the condition can be
      read on the true size \<open>N\<close> of the stream: the bomb error is thrown, or the flag set,
      exactly when \<open>N\<close> is at least \<open>MIN_BOMB\<close> and \<open>N div 200\<close> exceeds the hint, and
      otherwise the whole stream is returned.

  The capacity of the first buffer is the clamped hint plus one in \<open>size_t\<close>.
\<close>

theorem bomb_detected_iff:
  assumes "0 < hint"
    and "next_failure stm \<noteq> Some bomb_detected"
  shows
    "case read_best_try grow (0 < hint) stm hint of
       (r, buf, stm') \<Rightarrow>
         (r = Inl bomb_detected
            \<longleftrightarrow> MIN_BOMB \<le> length (data buf) \<and> hint < length (data buf) div 200)
       \<and> (fst (fz_read_best grow stm hint None) = Inl bomb_detected
            \<longleftrightarrow> MIN_BOMB \<le> length (data buf) \<and> hint < length (data buf) div 200)
       \<and> (MIN_BOMB \<le> length (data buf) \<and> hint < length (data buf) div 200
            \<longrightarrow> fz_read_best grow stm hint (Some t) = (Inr buf, Some 1, stm'))
       \<and> prefix (data buf) (next_bytes stm)
       \<and> (next_failure stm = None
            \<and> (\<forall>c. size_t (max 1024 hint + 1) \<le> c \<longrightarrow> c < grow c)
            \<longrightarrow> (r = Inl bomb_detected
                   \<longleftrightarrow> MIN_BOMB \<le> length (next_bytes stm)
                       \<and> hint < length (next_bytes stm) div 200)
               \<and> (fst (snd (fz_read_best grow stm hint (Some t))) = Some 1
                   \<longleftrightarrow> MIN_BOMB \<le> length (next_bytes stm)
                       \<and> hint < length (next_bytes stm) div 200)
               \<and> (r \<noteq> Inl bomb_detected
                   \<longrightarrow> r = Inr () \<and> data buf = next_bytes stm \<and> next_bytes stm' = []))"
proof -
  obtain r buf stm' where
    body: "read_best_try grow (0 < hint) stm hint = (r, buf, stm')"
    by (cases "read_best_try grow (0 < hint) stm hint")
  note run = body [unfolded read_best_try_def Let_def clamp_is_max]
  from read_best_loop_bomb_iff [OF run assms(2)] assms(1)
  have "r = Inl bomb_detected
          \<longleftrightarrow> MIN_BOMB \<le> length (data buf) \<and> max 1024 hint < length (data buf) div 200"
    by simp
  with bomb_condition_clamped [OF assms(1), of "length (data buf)"]
  have 1: "r = Inl bomb_detected
          \<longleftrightarrow> MIN_BOMB \<le> length (data buf) \<and> hint < length (data buf) div 200"
    by simp
  have thrown: "fst (fz_read_best grow stm hint None) = Inl bomb_detected
                  \<longleftrightarrow> r = Inl bomb_detected"
    using body by (cases r) (auto simp: fz_read_best_def Let_def)
  from thrown 1
  have 2: "fst (fz_read_best grow stm hint None) = Inl bomb_detected
          \<longleftrightarrow> MIN_BOMB \<le> length (data buf) \<and> hint < length (data buf) div 200"
    by simp
  have swallowed: "fz_read_best grow stm hint (Some t) = (Inr buf, Some 1, stm')"
    if "r = Inl bomb_detected"
    using that body by (simp add: fz_read_best_def Let_def)
  have 3: "MIN_BOMB \<le> length (data buf) \<and> hint < length (data buf) div 200
            \<longrightarrow> fz_read_best grow stm hint (Some t) = (Inr buf, Some 1, stm')"
    using swallowed 1 by blast
  from read_best_loop_view [OF run]
  obtain k where "data buf = take k (next_bytes stm)"
    by (auto simp: fz_new_buffer_def)
  then have 4: "prefix (data buf) (next_bytes stm)"
    by (simp add: take_is_prefix)
  have 5: "next_failure stm = None
            \<and> (\<forall>c. size_t (max 1024 hint + 1) \<le> c \<longrightarrow> c < grow c)
            \<longrightarrow> (r = Inl bomb_detected
                   \<longleftrightarrow> MIN_BOMB \<le> length (next_bytes stm)
                       \<and> hint < length (next_bytes stm) div 200)
               \<and> (fst (snd (fz_read_best grow stm hint (Some t))) = Some 1
                   \<longleftrightarrow> MIN_BOMB \<le> length (next_bytes stm)
                       \<and> hint < length (next_bytes stm) div 200)
               \<and> (r \<noteq> Inl bomb_detected
                   \<longrightarrow> r = Inr () \<and> data buf = next_bytes stm \<and> next_bytes stm' = [])"
  proof (rule impI)
    assume clean: "next_failure stm = None
            \<and> (\<forall>c. size_t (max 1024 hint + 1) \<le> c \<longrightarrow> c < grow c)"
    note c = read_best_try_clean [OF clean [THEN conjunct1] clean [THEN conjunct2] body]
    show "(r = Inl bomb_detected
                   \<longleftrightarrow> MIN_BOMB \<le> length (next_bytes stm)
                       \<and> hint < length (next_bytes stm) div 200)
               \<and> (fst (snd (fz_read_best grow stm hint (Some t))) = Some 1
                   \<longleftrightarrow> MIN_BOMB \<le> length (next_bytes stm)
                       \<and> hint < length (next_bytes stm) div 200)
               \<and> (r \<noteq> Inl bomb_detected
                   \<longrightarrow> r = Inr () \<and> data buf = next_bytes stm \<and> next_bytes stm' = [])"
    proof (cases "MIN_BOMB \<le> length (next_bytes stm)
                       \<and> hint < length (next_bytes stm) div 200")
      case True
      with c assms(1) have "r = Inl bomb_detected" by simp
      with True body show ?thesis
        by (simp add: fz_read_best_def Let_def)
    next
      case False
      with c have "r = Inr ()" "data buf = next_bytes stm" "next_bytes stm' = []"
        by simp_all
      with False body show ?thesis
        by (simp add: fz_read_best_def Let_def)
    qed
  qed
  have "(r = Inl bomb_detected
            \<longleftrightarrow> MIN_BOMB \<le> length (data buf) \<and> hint < length (data buf) div 200)
       \<and> (fst (fz_read_best grow stm hint None) = Inl bomb_detected
            \<longleftrightarrow> MIN_BOMB \<le> length (data buf) \<and> hint < length (data buf) div 200)
       \<and> (MIN_BOMB \<le> length (data buf) \<and> hint < length (data buf) div 200
            \<longrightarrow> fz_read_best grow stm hint (Some t) = (Inr buf, Some 1, stm'))
       \<and> prefix (data buf) (next_bytes stm)
       \<and> (next_failure stm = None
            \<and> (\<forall>c. size_t (max 1024 hint + 1) \<le> c \<longrightarrow> c < grow c)
            \<longrightarrow> (r = Inl bomb_detected
                   \<longleftrightarrow> MIN_BOMB \<le> length (next_bytes stm)
                       \<and> hint < length (next_bytes stm) div 200)
               \<and> (fst (snd (fz_read_best grow stm hint (Some t))) = Some 1
                   \<longleftrightarrow> MIN_BOMB \<le> length (next_bytes stm)
                       \<and> hint < length (next_bytes stm) div 200)
               \<and> (r \<noteq> Inl bomb_detected
                   \<longrightarrow> r = Inr () \<and> data buf = next_bytes stm \<and> next_bytes stm' = []))"
    by (rule conjI [OF 1 conjI [OF 2 conjI [OF 3 conjI [OF 4 5]]]])
  then show ?thesis
    unfolding body prod.case .
qed

lemma zeros_stream_view:
  "next_failure (zeros_stream n) = None"
  "length (next_bytes (zeros_stream n)) = Suc n"
  by (simp_all add: zeros_stream_def next_failure_def next_bytes_def)

lemma double_capacity_grows: "c < double_capacity c"
  by (simp add: double_capacity_def)

text \<open>
  200 MiB of zeros: with the hint 1024 the bomb error is thrown, or with \<open>truncated\<close> the
  flag is set; with the hint \<open>1048576\<close>, which is the size divided by 200, the error is
  not thrown and all the bytes are returned.  And three bytes followed by a read error
  of the source, with the hint 1: the error that comes out is not the bomb error.
\<close>

theorem bomb_detected_iff_witness:
  "fst (fz_read_best double_capacity (zeros_stream 209715199) 1024 None) = Inl bomb_detected
   \<and> fst (snd (fz_read_best double_capacity (zeros_stream 209715199) 1024 (Some 0))) = Some 1
   \<and> fst (fz_read_best double_capacity (zeros_stream 209715199) 1048576 None)
       \<noteq> Inl bomb_detected
   \<and> (case fz_read_best double_capacity (zeros_stream 209715199) 1048576 None of
         (Inr buf, t', stm') \<Rightarrow> length (data buf) = 209715200
       | (Inl e, t', stm') \<Rightarrow> False)
   \<and> fst (fz_read_best double_capacity
            \<lparr>window = [1, 2, 3], pos = 3, eof = False, avail = 0,
               source = [Fail (FZ_ERROR_GENERIC, ''read error'')]\<rparr> 1 None)
       \<noteq> Inl bomb_detected"
proof -
  let ?z = "zeros_stream 209715199"
  let ?s = "\<lparr>window = [1, 2, 3], pos = 3, eof = False, avail = 0,
               source = [Fail (FZ_ERROR_GENERIC, ''read error'')]\<rparr>"
  have z: "next_failure ?z \<noteq> Some bomb_detected" "next_failure ?z = None"
    by (simp_all add: zeros_stream_view)
  have n: "length (next_bytes ?z) = 209715200"
    by (simp add: zeros_stream_view)
  have s: "next_failure ?s \<noteq> Some bomb_detected" "length (next_bytes ?s) = 3"
    by (simp_all add: next_failure_def next_bytes_def)
  have g: "\<forall>c. size_t (max 1024 h + 1) \<le> c \<longrightarrow> c < double_capacity c" for h
    by (simp add: double_capacity_grows)
  obtain r1 b1 s1 where
    x1: "read_best_try double_capacity (0 < (1024 :: nat)) ?z 1024 = (r1, b1, s1)"
    by (cases "read_best_try double_capacity (0 < (1024 :: nat)) ?z 1024")
  obtain r2 b2 s2 where
    x2: "read_best_try double_capacity (0 < (1048576 :: nat)) ?z 1048576 = (r2, b2, s2)"
    by (cases "read_best_try double_capacity (0 < (1048576 :: nat)) ?z 1048576")
  obtain r3 b3 s3 where
    x3: "read_best_try double_capacity (0 < (1 :: nat)) ?s 1 = (r3, b3, s3)"
    by (cases "read_best_try double_capacity (0 < (1 :: nat)) ?s 1")
  have h: "0 < (1024 :: nat)" "0 < (1048576 :: nat)" "0 < (1 :: nat)"
    by simp_all
  note a = bomb_detected_iff [OF h(1) z(1), of double_capacity 0, unfolded x1 prod.case]
  note b = bomb_detected_iff [OF h(2) z(1), of double_capacity 0, unfolded x2 prod.case]
  note c = bomb_detected_iff [OF h(3) s(1), of double_capacity 0, unfolded x3 prod.case]
  note a5 = mp [OF a [THEN conjunct2, THEN conjunct2, THEN conjunct2, THEN conjunct2]
                   conjI [OF z(2) g [of 1024]]]
  note b5 = mp [OF b [THEN conjunct2, THEN conjunct2, THEN conjunct2, THEN conjunct2]
                   conjI [OF z(2) g [of 1048576]]]
  from a5 [THEN conjunct1] have "r1 = Inl bomb_detected"
    by (simp add: n MIN_BOMB_value)
  with a [THEN conjunct1]
  have big: "MIN_BOMB \<le> length (data b1) \<and> 1024 < length (data b1) div 200"
    by blast
  from a [THEN conjunct2, THEN conjunct1] big
  have a1: "fst (fz_read_best double_capacity ?z 1024 None) = Inl bomb_detected"
    by blast
  from a [THEN conjunct2, THEN conjunct2, THEN conjunct1] big
  have a2: "fz_read_best double_capacity ?z 1024 (Some 0) = (Inr b1, Some 1, s1)"
    by blast
  from b5 [THEN conjunct1] have r2: "r2 \<noteq> Inl bomb_detected"
    by (simp add: n MIN_BOMB_value)
  with b5 [THEN conjunct2, THEN conjunct2] have whole: "r2 = Inr ()" "data b2 = next_bytes ?z"
    by blast+
  from x2 whole(1) have "fz_read_best double_capacity ?z 1048576 None = (Inr b2, None, s2)"
    by (simp add: fz_read_best_def Let_def)
  with whole(2) have b2: "case fz_read_best double_capacity ?z 1048576 None of
         (Inr buf, t', stm') \<Rightarrow> length (data buf) = 209715200
       | (Inl e, t', stm') \<Rightarrow> False"
    by (simp add: n)
  from b [THEN conjunct1] b [THEN conjunct2, THEN conjunct1] r2
  have b1: "fst (fz_read_best double_capacity ?z 1048576 None) \<noteq> Inl bomb_detected"
    by blast
  from prefix_length_le [OF c [THEN conjunct2, THEN conjunct2, THEN conjunct2, THEN conjunct1]]
       s(2)
  have "length (data b3) \<le> 3"
    by simp
  then have "\<not> (MIN_BOMB \<le> length (data b3) \<and> 1 < length (data b3) div 200)"
    by (simp add: MIN_BOMB_value)
  with c [THEN conjunct2, THEN conjunct1]
  have c1: "fst (fz_read_best double_capacity ?s 1 None) \<noteq> Inl bomb_detected"
    by blast
  from a2 have a3: "fst (snd (fz_read_best double_capacity ?z 1024 (Some 0))) = Some 1"
    by simp
  show ?thesis
    by (rule conjI [OF a1 conjI [OF a3 conjI [OF b1 conjI [OF b2 c1]]]])
qed

text \<open>
  Claim C1 as it was stated fails for the hint 0: the 200 MiB of zeros are read to the
  end, although the length has passed 100 MiB and the length divided by 200 exceeds the
  hint.
\<close>

theorem bomb_check_counterexample:
  "(case fz_read_best double_capacity (zeros_stream 209715199) 0 None of
      (Inr buf, t, stm') \<Rightarrow> length (data buf) = 209715200
    | (Inl e, t, stm') \<Rightarrow> False)
   \<and> MIN_BOMB \<le> 209715200 \<and> (0 :: nat) < 209715200 div 200"
proof -
  obtain r buf' stm' where
    body: "read_best_try double_capacity (0 < (0::nat)) (zeros_stream 209715199) 0 = (r, buf', stm')"
    by (cases "read_best_try double_capacity (0 < (0::nat)) (zeros_stream 209715199) 0")
  have g: "\<forall>c. size_t (max 1024 0 + 1) \<le> c \<longrightarrow> c < double_capacity c"
    by (simp add: double_capacity_grows)
  from read_best_try_clean [OF zeros_stream_view(1) g body]
  have "r = Inr ()" "data buf' = next_bytes (zeros_stream 209715199)"
    by simp_all
  moreover have "length (next_bytes (zeros_stream 209715199)) = 209715200"
    by (simp add: zeros_stream_view)
  ultimately show ?thesis
    using body by (simp add: fz_read_best_def Let_def MIN_BOMB_value)
qed

text \<open>
  Claim C10.  With the hint 0 the check is not armed: unless the source itself throws an
  error that reads like the bomb error, \<open>fz_read_best\<close> never throws it, whatever the
  size of the stream, and in tolerant mode a source that ends without throwing never
  gets the truncated flag.  \<open>fz_read_file\<close> reads the opened stream with the hint 0, so
  the same holds for it.
\<close>

theorem zero_hint_never_detects_bomb:
  assumes "next_failure stm \<noteq> Some bomb_detected"
  shows "fst (fz_read_best grow stm 0 truncated) \<noteq> Inl bomb_detected
       \<and> fst (fz_read_all grow stm 0) \<noteq> Inl bomb_detected
       \<and> (fz_open_file filename = Inr stm
            \<longrightarrow> fz_read_file fz_open_file grow filename \<noteq> Inl bomb_detected)
       \<and> (next_failure stm = None \<longrightarrow>
            fst (snd (fz_read_best grow stm 0 (Some t))) = Some 0)"
proof -
  obtain r buf' stm' where
    body: "read_best_try grow False stm 0 = (r, buf', stm')"
    by (cases "read_best_try grow False stm 0")
  from read_best_loop_view [OF body [unfolded read_best_try_def Let_def]]
  have v: "case r of Inl e \<Rightarrow> next_failure stm = Some e | Inr u \<Rightarrow> True"
    by (simp split: sum.splits)
  with assms have nb: "r \<noteq> Inl bomb_detected"
    by (cases r) auto
  have 1: "fst (fz_read_best grow stm 0 tr) \<noteq> Inl bomb_detected" for tr
    using body nb
    by (cases r; cases tr) (auto simp: fz_read_best_def Let_def)
  have 2: "fst (fz_read_all grow stm 0) = fst (fz_read_best grow stm 0 None)"
    by (simp add: fz_read_all_def split: prod.splits)
  have 3: "next_failure stm = None \<Longrightarrow> fst (snd (fz_read_best grow stm 0 (Some t))) = Some 0"
    using body v by (cases r) (auto simp: fz_read_best_def Let_def)
  from 1 [of truncated] 1 [of None] 2 3 show ?thesis
    by (simp add: fz_read_file_def)
qed

text \<open>The 200 MiB of zeros again, read with the hint 0 and through \<open>fz_read_file\<close>.\<close>

theorem zero_hint_never_detects_bomb_witness:
  "fst (fz_read_best double_capacity (zeros_stream 209715199) 0 None) \<noteq> Inl bomb_detected
   \<and> fst (fz_read_all double_capacity (zeros_stream 209715199) 0) \<noteq> Inl bomb_detected
   \<and> fz_read_file (\<lambda>name. Inr (zeros_stream 209715199)) double_capacity ''big.bin''
       \<noteq> Inl bomb_detected
   \<and> fst (snd (fz_read_best double_capacity (zeros_stream 209715199) 0 (Some 0))) = Some 0
   \<and> length (next_bytes (zeros_stream 209715199)) = 209715200"
proof -
  have h: "next_failure (zeros_stream 209715199) \<noteq> Some bomb_detected"
    by (simp add: zeros_stream_view)
  from zero_hint_never_detects_bomb
         [OF h, of double_capacity None "\<lambda>name. Inr (zeros_stream 209715199)" "''big.bin''" 0]
  show ?thesis
    by (simp add: zeros_stream_view)
qed

subsection \<open>Retry-later and tolerant mode\<close>

text \<open>
  Claim C2.  Whatever the stream, the hint, the growth policy and the pointer
  \<open>truncated\<close>: if the call pulled a retry-later error out of the source (the part
  \<open>pre\<close> of the script that the call used up contains one), then the call throws that
  very error, and the flag behind \<open>truncated\<close> (if any) holds 0, not 1.  So the error is
  neither swallowed, nor reported as a truncation, nor taken for the end of the stream.
  More generally, any retry-later error thrown inside the block under \<open>fz_try\<close> leaves
  the function unchanged, with the flag at 0.
\<close>

theorem trylater_is_rethrown:
  "(fz_read_best grow stm initial truncated = (r, t, stm')
      \<and> source stm = pre @ source stm'
      \<and> Fail (FZ_ERROR_TRYLATER, m) \<in> set pre
      \<longrightarrow> r = Inl (FZ_ERROR_TRYLATER, m) \<and> t = map_option (\<lambda>t. 0) truncated)
   \<and> (read_best_try grow (0 < initial) stm initial = (Inl e, buf, stm0)
      \<and> fst e = FZ_ERROR_TRYLATER
      \<longrightarrow> fz_read_best grow stm initial truncated
            = (Inl e, map_option (\<lambda>t. 0) truncated, stm0))"
proof (intro conjI impI)
  assume a: "fz_read_best grow stm initial truncated = (r, t, stm')
      \<and> source stm = pre @ source stm'
      \<and> Fail (FZ_ERROR_TRYLATER, m) \<in> set pre"
  obtain r0 buf0 stm1 where
    body: "read_best_try grow (0 < initial) stm initial = (r0, buf0, stm1)"
    by (cases "read_best_try grow (0 < initial) stm initial")
  from a body have same: "stm' = stm1"
    using fz_read_best_stream by blast
  from a have "source stm = pre @ source stm1" "Fail (FZ_ERROR_TRYLATER, m) \<in> set pre"
    by (simp_all add: same)
  from pulled_error_is_thrown [OF body this] have "r0 = Inl (FZ_ERROR_TRYLATER, m)" .
  with a body show "r = Inl (FZ_ERROR_TRYLATER, m)" and "t = map_option (\<lambda>t. 0) truncated"
    by (simp_all add: fz_read_best_def Let_def)
next
  assume "read_best_try grow (0 < initial) stm initial = (Inl e, buf, stm0)
      \<and> fst e = FZ_ERROR_TRYLATER"
  then show "fz_read_best grow stm initial truncated
            = (Inl e, map_option (\<lambda>t. 0) truncated, stm0)"
    by (simp add: fz_read_best_def Let_def)
qed

text \<open>
  A source that gives two bytes and then asks to retry later, read in tolerant mode: the
  retry-later error comes out, the flag stays 0.
\<close>

theorem trylater_is_rethrown_witness:
  "fz_read_best double_capacity
     \<lparr>window = [], pos = 0, eof = False, avail = 0,
        source = [Data 1 [2], Fail (FZ_ERROR_TRYLATER, ''data not yet available'')]\<rparr>
     0 (Some 7)
   = (Inl (FZ_ERROR_TRYLATER, ''data not yet available''), Some 0,
      \<lparr>window = [], pos = 2, eof = False, avail = 0, source = []\<rparr>)"
proof -
  let ?stm = "\<lparr>window = [], pos = 0, eof = False, avail = 0,
        source = [Data 1 [2], Fail (FZ_ERROR_TRYLATER, ''data not yet available'')]\<rparr>"
  let ?stm' = "\<lparr>window = [], pos = 2, eof = False, avail = 0, source = []\<rparr> :: fz_stream"
  obtain r t where
    run: "fz_read_best double_capacity ?stm 0 (Some 7) = (r, t, ?stm')"
    by (simp add: fz_read_best_def read_best_try_def read_best_loop.simps fz_new_buffer_def
          size_t_def fz_read_def fz_read_loop.simps fz_available_def Let_def)
  have used: "source ?stm = [Data 1 [2], Fail (FZ_ERROR_TRYLATER, ''data not yet available'')]
                @ source ?stm'"
    by simp
  have body: "read_best_try double_capacity (0 < (0::nat)) ?stm 0
      = (Inl (FZ_ERROR_TRYLATER, ''data not yet available''),
         \<lparr>data = [], cap = 1025\<rparr>, ?stm')"
    by (simp add: read_best_try_def read_best_loop.simps fz_new_buffer_def size_t_def
          fz_read_def fz_read_loop.simps fz_available_def Let_def)
  from trylater_is_rethrown
         [where grow = double_capacity and stm = ?stm and initial = 0 and truncated = "Some 7"
            and r = r and t = t and stm' = ?stm'
            and pre = "[Data 1 [2], Fail (FZ_ERROR_TRYLATER, ''data not yet available'')]"
            and m = "''data not yet available''"
            and e = "(FZ_ERROR_TRYLATER, ''data not yet available'')"
            and buf = "\<lparr>data = [], cap = 1025\<rparr>" and ?stm0.0 = ?stm']
       run used body
  show ?thesis
    by simp
qed

text \<open>
  Claim C3.  When the block under \<open>fz_try\<close> throws an error \<open>e\<close> that is not retry-later,
  leaving the buffer \<open>buf\<close>: with \<open>truncated\<close> the call returns that buffer and sets the
  flag to 1, and nothing is thrown; without it the call throws \<open>e\<close> and returns no
  buffer.  The buffer holds bytes of the stream, in order, from its start.  In
  particular this is what happens when the call pulled such an error out of the source.
\<close>

theorem other_errors_tolerated_or_thrown:
  "(read_best_try grow (0 < initial) stm initial = (Inl e, buf, stm0)
      \<and> fst e \<noteq> FZ_ERROR_TRYLATER
      \<longrightarrow> fz_read_best grow stm initial (Some v) = (Inr buf, Some 1, stm0)
          \<and> fz_read_best grow stm initial None = (Inl e, None, stm0)
          \<and> prefix (data buf) (next_bytes stm))
   \<and> (fz_read_best grow stm initial truncated = (r, t, stm')
      \<and> source stm = pre @ source stm'
      \<and> Fail e \<in> set pre \<and> fst e \<noteq> FZ_ERROR_TRYLATER
      \<longrightarrow> (case truncated of
             None \<Rightarrow> r = Inl e \<and> t = None
           | Some v \<Rightarrow>
               (case r of Inr b \<Rightarrow> prefix (data b) (next_bytes stm) | Inl x \<Rightarrow> False)
               \<and> t = Some 1))"
proof -
  have tolerated:
    "fz_read_best grow stm initial (Some v) = (Inr buf, Some 1, stm0)
       \<and> fz_read_best grow stm initial None = (Inl e, None, stm0)
       \<and> prefix (data buf) (next_bytes stm)"
    if run: "read_best_try grow (0 < initial) stm initial = (Inl e, buf, stm0)"
      and other: "fst e \<noteq> FZ_ERROR_TRYLATER"
    for v e buf stm0
  proof -
    from read_best_loop_view [OF run [unfolded read_best_try_def Let_def]]
    obtain k where "data buf = take k (next_bytes stm)"
      by (auto simp: fz_new_buffer_def)
    then have "prefix (data buf) (next_bytes stm)"
      by (simp add: take_is_prefix)
    with run other show ?thesis
      by (simp add: fz_read_best_def Let_def)
  qed
  show ?thesis
  proof (intro conjI impI)
    assume a: "read_best_try grow (0 < initial) stm initial = (Inl e, buf, stm0)
      \<and> fst e \<noteq> FZ_ERROR_TRYLATER"
    with tolerated [of e buf stm0 v]
    show "fz_read_best grow stm initial (Some v) = (Inr buf, Some 1, stm0)"
      and "fz_read_best grow stm initial None = (Inl e, None, stm0)"
      and "prefix (data buf) (next_bytes stm)"
      by simp_all
  next
    assume a: "fz_read_best grow stm initial truncated = (r, t, stm')
      \<and> source stm = pre @ source stm'
      \<and> Fail e \<in> set pre \<and> fst e \<noteq> FZ_ERROR_TRYLATER"
    obtain r0 buf0 stm1 where
      body: "read_best_try grow (0 < initial) stm initial = (r0, buf0, stm1)"
      by (cases "read_best_try grow (0 < initial) stm initial")
    from a body have same: "stm' = stm1"
      using fz_read_best_stream by blast
    from a have "source stm = pre @ source stm1" "Fail e \<in> set pre"
      by (simp_all add: same)
    from pulled_error_is_thrown [OF body this] have r0: "r0 = Inl e" .
    from a have other: "fst e \<noteq> FZ_ERROR_TRYLATER" by simp
    show "case truncated of
             None \<Rightarrow> r = Inl e \<and> t = None
           | Some v \<Rightarrow>
               (case r of Inr b \<Rightarrow> prefix (data b) (next_bytes stm) | Inl x \<Rightarrow> False)
               \<and> t = Some 1"
    proof (cases truncated)
      case None
      with a tolerated [OF body [unfolded r0] other, of 0] show ?thesis
        by simp
    next
      case (Some w)
      with a tolerated [OF body [unfolded r0] other, of w] show ?thesis
        by auto
    qed
  qed
qed

text \<open>
  A stream with 1025 bytes in its window whose source then throws a generic error, read
  with the hint 0.  The first read fills the buffer; the second one throws.  Tolerant
  mode returns the 1025 bytes with the flag set; the plain mode throws.
\<close>

theorem other_errors_tolerated_or_thrown_witness:
  "fz_read_best double_capacity
     \<lparr>window = replicate 1025 7, pos = 1025, eof = False, avail = 0,
        source = [Fail (FZ_ERROR_GENERIC, ''read error'')]\<rparr> 0 (Some 0)
   = (Inr \<lparr>data = replicate 1025 7, cap = 2050\<rparr>, Some 1,
      \<lparr>window = [], pos = 1025, eof = False, avail = 0, source = []\<rparr>)
   \<and> fz_read_best double_capacity
     \<lparr>window = replicate 1025 7, pos = 1025, eof = False, avail = 0,
        source = [Fail (FZ_ERROR_GENERIC, ''read error'')]\<rparr> 0 None
   = (Inl (FZ_ERROR_GENERIC, ''read error''), None,
      \<lparr>window = [], pos = 1025, eof = False, avail = 0, source = []\<rparr>)"
proof -
  let ?stm = "\<lparr>window = replicate 1025 7, pos = 1025, eof = False, avail = 0,
        source = [Fail (FZ_ERROR_GENERIC, ''read error'')]\<rparr>"
  let ?stm' = "\<lparr>window = [], pos = 1025, eof = False, avail = 0, source = []\<rparr> :: fz_stream"
  have body: "read_best_try double_capacity (0 < (0::nat)) ?stm 0
      = (Inl (FZ_ERROR_GENERIC, ''read error''),
         \<lparr>data = replicate 1025 7, cap = 2050\<rparr>, ?stm')"
    by (simp add: read_best_try_def read_best_loop.simps fz_new_buffer_def size_t_def
          fz_grow_buffer_def double_capacity_def fz_read_def fz_read_loop.simps
          fz_available_def Let_def MIN_BOMB_value)
  from other_errors_tolerated_or_thrown
         [where grow = double_capacity and stm = ?stm and initial = 0
            and e = "(FZ_ERROR_GENERIC, ''read error'')"
            and buf = "\<lparr>data = replicate 1025 7, cap = 2050\<rparr>" and ?stm0.0 = ?stm'
            and v = 0]
       body
  show ?thesis
    by simp
qed

section \<open>Properties of the line reader\<close>

lemma fz_read_byte_view:
  "case fz_read_byte stm of
     (Inr c, stm1) \<Rightarrow>
        (case next_bytes stm of
           [] \<Rightarrow> c = EOF \<and> next_failure stm = None \<and> next_bytes stm1 = []
                  \<and> next_failure stm1 = None \<and> fz_tell stm1 = fz_tell stm
         | b # bs \<Rightarrow> c = uint b \<and> next_bytes stm1 = bs
                  \<and> next_failure stm1 = next_failure stm \<and> fz_tell stm1 = fz_tell stm + 1)
   | (Inl e, stm1) \<Rightarrow> next_failure stm = Some e \<and> next_bytes stm = []"
  by (cases "source stm" rule: upcoming.cases)
     (auto simp: fz_read_byte_def next_bytes_def next_failure_def fz_tell_def
           split: list.splits if_splits)

lemma fz_peek_byte_view:
  "case fz_peek_byte stm of
     (Inr c, stm1) \<Rightarrow>
        (case next_bytes stm of
           [] \<Rightarrow> c = EOF \<and> next_failure stm = None
         | b # bs \<Rightarrow> c = uint b)
        \<and> next_bytes stm1 = next_bytes stm
        \<and> next_failure stm1 = next_failure stm \<and> fz_tell stm1 = fz_tell stm
   | (Inl e, stm1) \<Rightarrow> next_failure stm = Some e \<and> next_bytes stm = []"
  by (cases "source stm" rule: upcoming.cases)
     (auto simp: fz_peek_byte_def next_bytes_def next_failure_def fz_tell_def
           split: list.splits if_splits)

lemma uint_byte_eq [simp]:
  "uint (b :: byte) = 13 \<longleftrightarrow> b = 13"
  "uint (b :: byte) = 10 \<longleftrightarrow> b = 10"
  by (simp_all add: word_uint_eq_iff)

lemma uint_byte_not_eof [simp]: "uint (b :: byte) \<noteq> - 1"
proof
  assume "uint b = - 1"
  moreover have "0 \<le> uint b" by simp
  ultimately show False by linarith
qed

lemma eof_not_uint_byte [simp]: "- 1 \<noteq> uint (b :: byte)"
  using uint_byte_not_eof [of b] by (simp only: not_sym not_False_eq_True)

lemma read_line_loop_view:
  "case read_line_loop stm s c n of
     (Inr (s', c', n'), stm') \<Rightarrow> prefix s s'
   | (Inl e, stm') \<Rightarrow> next_failure stm = Some e"
proof (induction stm s c n rule: read_line_loop.induct)
  case (1 stm s c n)
  show ?case
  proof (cases "n > 1")
    case False
    then show ?thesis by (simp add: read_line_loop.simps [of stm])
  next
    case True
    obtain r1 stm1 where rb: "fz_read_byte stm = (r1, stm1)"
      by (cases "fz_read_byte stm")
    note v1 = fz_read_byte_view [of stm, unfolded rb]
    show ?thesis
    proof (cases r1)
      case (Inl e)
      with True rb v1 show ?thesis
        by (simp add: read_line_loop.simps [of stm])
    next
      case (Inr c1)
      consider "c1 = EOF" | "c1 = CR" | "c1 = LF" | "c1 \<noteq> EOF" "c1 \<noteq> CR" "c1 \<noteq> LF"
        by blast
      then show ?thesis
      proof cases
        case 1
        with True rb Inr show ?thesis
          by (simp add: read_line_loop.simps [of stm])
      next
        case 2
        obtain r2 stm2 where pk: "fz_peek_byte stm1 = (r2, stm2)"
          by (cases "fz_peek_byte stm1")
        note v2 = fz_peek_byte_view [of stm1, unfolded pk]
        obtain r3 stm3 where rb3: "fz_read_byte stm2 = (r3, stm3)"
          by (cases "fz_read_byte stm2")
        note v3 = fz_read_byte_view [of stm2, unfolded rb3]
        from v1 Inr 2 obtain bs where nb: "next_bytes stm = 13 # bs" "next_bytes stm1 = bs"
          "next_failure stm1 = next_failure stm"
          by (auto split: list.splits)
        from True rb Inr 2 pk rb3 v2 v3 nb show ?thesis
          by (auto simp: read_line_loop.simps [of stm] split: sum.splits list.splits)
      next
        case 3
        with True rb Inr show ?thesis
          by (simp add: read_line_loop.simps [of stm])
      next
        case 4
        with True rb Inr
        have step: "read_line_loop stm s c n
                      = read_line_loop stm1 (s @ [word_of_int c1]) c1 (n - 1)"
          by (simp add: read_line_loop.simps [of stm])
        from v1 Inr 4 have nf: "next_failure stm1 = next_failure stm"
          by (auto split: list.splits)
        from "1.IH" [OF True rb [symmetric] Inr 4(1) 4(2) 4(3)] nf show ?thesis
          unfolding step by (auto split: prod.splits sum.splits dest: append_prefixD)
      qed
    qed
  qed
qed


text \<open>One turn of the loop at each kind of line end.\<close>

lemma read_line_loop_lf:
  assumes "n > 1" and "next_bytes stm = 10 # rest"
  shows "\<exists>stm'. read_line_loop stm s c n = (Inr (s, LF, n), stm')
              \<and> next_bytes stm' = rest \<and> fz_tell stm' = fz_tell stm + 1"
proof -
  obtain r1 stm1 where rb: "fz_read_byte stm = (r1, stm1)"
    by (cases "fz_read_byte stm")
  from fz_read_byte_view [of stm, unfolded rb] assms(2)
  have v: "r1 = Inr LF" "next_bytes stm1 = rest" "fz_tell stm1 = fz_tell stm + 1"
    by (cases r1; simp)+
  from assms(1) rb v show ?thesis
    by (simp add: read_line_loop.simps [of stm])
qed

lemma read_line_loop_cr:
  assumes "n > 1" and "next_bytes stm = 13 # b # rest"
  shows "\<exists>stm'. read_line_loop stm s c n = (Inr (s, uint b, n), stm')
              \<and> next_bytes stm' = (if b = 10 then rest else b # rest)
              \<and> fz_tell stm' = fz_tell stm + (if b = 10 then 2 else 1)"
proof -
  obtain r1 stm1 where rb: "fz_read_byte stm = (r1, stm1)"
    by (cases "fz_read_byte stm")
  from fz_read_byte_view [of stm, unfolded rb] assms(2)
  have v1: "r1 = Inr CR" "next_bytes stm1 = b # rest" "fz_tell stm1 = fz_tell stm + 1"
    by (cases r1; simp)+
  obtain r2 stm2 where pk: "fz_peek_byte stm1 = (r2, stm2)"
    by (cases "fz_peek_byte stm1")
  from fz_peek_byte_view [of stm1, unfolded pk] v1(2)
  have v2: "r2 = Inr (uint b)" "next_bytes stm2 = b # rest" "fz_tell stm2 = fz_tell stm1"
    by (cases r2; simp)+
  obtain r3 stm3 where rb3: "fz_read_byte stm2 = (r3, stm3)"
    by (cases "fz_read_byte stm2")
  from fz_read_byte_view [of stm2, unfolded rb3] v2(2)
  have v3: "r3 = Inr (uint b)" "next_bytes stm3 = rest" "fz_tell stm3 = fz_tell stm2 + 1"
    by (cases r3; simp)+
  from assms(1) rb pk rb3 v1 v2 v3 show ?thesis
    by (simp add: read_line_loop.simps [of stm])
qed



lemma read_line_loop_end:
  assumes "n > 1" and "next_bytes stm = []" and "next_failure stm = None"
  shows "\<exists>stm'. read_line_loop stm s c n = (Inr (s, EOF, n), stm')
              \<and> next_bytes stm' = [] \<and> fz_tell stm' = fz_tell stm"
proof -
  obtain r1 stm1 where rb: "fz_read_byte stm = (r1, stm1)"
    by (cases "fz_read_byte stm")
  from fz_read_byte_view [of stm, unfolded rb] assms(2,3)
  have v1: "r1 = Inr EOF" "next_bytes stm1 = []" "fz_tell stm1 = fz_tell stm"
    by (cases r1; simp)+
  from assms(1) rb v1 show ?thesis
    by (simp add: read_line_loop.simps [of stm])
qed

text \<open>
  When does the loop, started as \<open>fz_read_line\<close> starts it and with room for a
  character, end with nothing stored and \<open>c\<close> at \<open>EOF\<close>?  Exactly when the stream held
  nothing, or a lone carriage return.
\<close>

lemma read_line_loop_nothing:
  assumes "n > 1"
  shows "case read_line_loop stm [] EOF n of
           (Inr (s', c', n'), stm') \<Rightarrow>
              (s' = [] \<and> c' = EOF) \<longleftrightarrow> (next_bytes stm = [] \<or> next_bytes stm = [13])
         | (Inl e, stm') \<Rightarrow> next_failure stm = Some e"
proof -
  obtain r1 stm1 where rb: "fz_read_byte stm = (r1, stm1)"
    by (cases "fz_read_byte stm")
  note v1 = fz_read_byte_view [of stm, unfolded rb]
  show ?thesis
  proof (cases r1)
    case (Inl e)
    with assms rb v1 show ?thesis
      by (simp add: read_line_loop.simps [of stm])
  next
    case (Inr c1)
    consider "c1 = EOF" | "c1 = CR" | "c1 = LF" | "c1 \<noteq> EOF" "c1 \<noteq> CR" "c1 \<noteq> LF"
      by blast
    then show ?thesis
    proof cases
      case 1
      with assms rb Inr v1 show ?thesis
        by (auto simp: read_line_loop.simps [of stm] split: list.splits)
    next
      case 2
      obtain r2 stm2 where pk: "fz_peek_byte stm1 = (r2, stm2)"
        by (cases "fz_peek_byte stm1")
      note v2 = fz_peek_byte_view [of stm1, unfolded pk]
      obtain r3 stm3 where rb3: "fz_read_byte stm2 = (r3, stm3)"
        by (cases "fz_read_byte stm2")
      note v3 = fz_read_byte_view [of stm2, unfolded rb3]
      from v1 Inr 2 obtain bs where nb: "next_bytes stm = 13 # bs" "next_bytes stm1 = bs"
        "next_failure stm1 = next_failure stm"
        by (auto split: list.splits)
      from assms rb Inr 2 pk rb3 v2 v3 nb show ?thesis
        by (auto simp: read_line_loop.simps [of stm] split: sum.splits list.splits)
    next
      case 3
      with assms rb Inr v1 show ?thesis
        by (auto simp: read_line_loop.simps [of stm] split: list.splits)
    next
      case 4
      with assms rb Inr
      have step: "read_line_loop stm [] EOF n
                    = read_line_loop stm1 ([] @ [word_of_int c1]) c1 (n - 1)"
        by (simp add: read_line_loop.simps [of stm])
      from v1 Inr 4 obtain b bs where nb: "next_bytes stm = b # bs" "b \<noteq> 13"
        and nf: "next_failure stm1 = next_failure stm"
        by (auto split: list.splits)
      from read_line_loop_view [of stm1 "[] @ [word_of_int c1]" c1 "n - 1"] nb nf
      show ?thesis
        unfolding step by (auto split: prod.splits sum.splits)
    qed
  qed
qed

text \<open>
  Claim C5, as amended.  With room for at most the terminating zero (\<open>n \<le> 1\<close>) nothing
  is read and \<open>NULL\<close> is returned, whatever the stream holds.  With \<open>n \<ge> 2\<close>, and leaving
  aside the stream that holds a lone carriage return: when \<open>fz_read_line\<close> returns, it
  returns \<open>NULL\<close> exactly when the stream held no byte, and it throws only what the
  source throws; so an exhausted stream gives \<open>NULL\<close>.  A line feed as first byte, or a
  carriage return followed by another byte, gives the empty line and not \<open>NULL\<close>.
\<close>

theorem no_line_only_at_end:
  "(n \<le> 1 \<longrightarrow>
      fz_read_line stm n = (Inr (if n = 0 then [] else [0], False), stm))
   \<and> (2 \<le> n \<and> next_bytes stm \<noteq> [13] \<longrightarrow>
        (case fz_read_line stm n of
           (Inr (mem, ret), stm') \<Rightarrow> ret \<longleftrightarrow> next_bytes stm \<noteq> []
         | (Inl e, stm') \<Rightarrow> next_failure stm = Some e))
   \<and> (2 \<le> n \<and> next_bytes stm = [] \<and> next_failure stm = None \<longrightarrow>
        fst (fz_read_line stm n) = Inr ([0], False))
   \<and> (2 \<le> n \<and> (next_bytes stm = 10 # rest \<or> next_bytes stm = 13 # b # rest) \<longrightarrow>
        fst (fz_read_line stm n) = Inr ([0], True))"
proof (intro conjI impI)
  assume "n \<le> 1"
  then show "fz_read_line stm n = (Inr (if n = 0 then [] else [0], False), stm)"
    by (simp add: fz_read_line_def read_line_loop.simps [of stm])
next
  assume a: "2 \<le> n \<and> next_bytes stm \<noteq> [13]"
  then have "n > 1" by simp
  from read_line_loop_nothing [OF this, of stm] a
  show "case fz_read_line stm n of
           (Inr (mem, ret), stm') \<Rightarrow> ret \<longleftrightarrow> next_bytes stm \<noteq> []
         | (Inl e, stm') \<Rightarrow> next_failure stm = Some e"
    by (auto simp: fz_read_line_def Let_def split: prod.splits sum.splits)
next
  assume a: "2 \<le> n \<and> next_bytes stm = [] \<and> next_failure stm = None"
  then have "n > 1" "next_bytes stm = []" "next_failure stm = None" by simp_all
  from read_line_loop_end [OF this, of "[]" EOF] a
  show "fst (fz_read_line stm n) = Inr ([0], False)"
    by (auto simp: fz_read_line_def Let_def)
next
  assume a: "2 \<le> n \<and> (next_bytes stm = 10 # rest \<or> next_bytes stm = 13 # b # rest)"
  then have n: "n > 1" by simp
  from a consider "next_bytes stm = 10 # rest" | "next_bytes stm = 13 # b # rest" by blast
  then show "fst (fz_read_line stm n) = Inr ([0], True)"
  proof cases
    case 1
    from read_line_loop_lf [OF n 1, of "[]" EOF] n show ?thesis
      by (auto simp: fz_read_line_def Let_def)
  next
    case 2
    from read_line_loop_cr [OF n 2, of "[]" EOF] n show ?thesis
      by (auto simp: fz_read_line_def Let_def)
  qed
qed

text \<open>
  With room for 16 bytes: the exhausted stream gives \<open>NULL\<close>; the streams that start with
  a line feed, or with a carriage return and another byte, give the empty line; the
  stream \<open>a\<close>, line feed does not give \<open>NULL\<close>.  With room for 1 byte that last stream
  gives \<open>NULL\<close> and is not read.
\<close>

theorem no_line_only_at_end_witness:
  "fst (fz_read_line \<lparr>window = [], pos = 0, eof = False, avail = 0, source = []\<rparr> 16)
     = Inr ([0], False)
   \<and> fst (fz_read_line \<lparr>window = [], pos = 0, eof = False, avail = 0,
                          source = [Data 10 [97]]\<rparr> 16)
     = Inr ([0], True)
   \<and> fst (fz_read_line \<lparr>window = [], pos = 0, eof = False, avail = 0,
                          source = [Data 13 [97]]\<rparr> 16)
     = Inr ([0], True)
   \<and> (case fz_read_line \<lparr>window = [], pos = 0, eof = False, avail = 0,
                          source = [Data 97 [10]]\<rparr> 16 of
         (Inr (mem, ret), stm') \<Rightarrow> ret
       | (Inl e, stm') \<Rightarrow> False)
   \<and> fz_read_line \<lparr>window = [], pos = 0, eof = False, avail = 0,
                          source = [Data 97 [10]]\<rparr> 1
     = (Inr ([0], False),
        \<lparr>window = [], pos = 0, eof = False, avail = 0, source = [Data 97 [10]]\<rparr>)"
proof -
  let ?e = "\<lparr>window = [], pos = 0, eof = False, avail = 0, source = []\<rparr> :: fz_stream"
  let ?l = "\<lparr>window = [], pos = 0, eof = False, avail = 0, source = [Data 10 [97]]\<rparr>"
  let ?c = "\<lparr>window = [], pos = 0, eof = False, avail = 0, source = [Data 13 [97]]\<rparr>"
  let ?a = "\<lparr>window = [], pos = 0, eof = False, avail = 0, source = [Data 97 [10]]\<rparr>"
  have e: "next_bytes ?e = []" "next_failure ?e = None"
    by (simp_all add: next_bytes_def next_failure_def)
  have l: "next_bytes ?l = 10 # [97]"
    by (simp add: next_bytes_def)
  have c: "next_bytes ?c = 13 # 97 # []"
    by (simp add: next_bytes_def)
  have a: "next_bytes ?a = [97, 10]" "next_failure ?a = None"
    by (simp_all add: next_bytes_def next_failure_def)
  from no_line_only_at_end [where n = 16 and stm = ?e] e
  have "fst (fz_read_line ?e 16) = Inr ([0], False)" by simp
  moreover from no_line_only_at_end [where n = 16 and stm = ?l and rest = "[97]"] l
  have "fst (fz_read_line ?l 16) = Inr ([0], True)" by simp
  moreover from no_line_only_at_end [where n = 16 and stm = ?c and b = 97 and rest = "[]"] c
  have "fst (fz_read_line ?c 16) = Inr ([0], True)" by simp
  moreover from no_line_only_at_end [where n = 16 and stm = ?a] a
  have "case fz_read_line ?a 16 of
         (Inr (mem, ret), stm') \<Rightarrow> ret
       | (Inl e, stm') \<Rightarrow> False"
    by (simp split: prod.splits sum.splits)
  moreover from no_line_only_at_end [where n = 1 and stm = ?a]
  have "fz_read_line ?a 1 = (Inr ([0], False), ?a)" by simp
  ultimately show ?thesis by simp
qed

text \<open>
  Claim C5 as it was stated fails for the capacity 1: the stream holds the byte \<open>a\<close>, yet
  \<open>NULL\<close> is returned, and the stream has not been touched.
\<close>

theorem no_line_counterexample:
  "fz_read_line \<lparr>window = [], pos = 0, eof = False, avail = 0, source = [Data 97 []]\<rparr> 1
     = (Inr ([0], False),
        \<lparr>window = [], pos = 0, eof = False, avail = 0, source = [Data 97 []]\<rparr>)
   \<and> next_bytes \<lparr>window = [], pos = 0, eof = False, avail = 0, source = [Data 97 []]\<rparr>
     = [97]"
  by (simp add: fz_read_line_def read_line_loop.simps next_bytes_def)

text \<open>
  The stream left aside above: a lone carriage return, with room for 16 bytes.  The
  carriage return is consumed, the peek behind it finds the end of the stream and leaves
  \<open>EOF\<close> in \<open>c\<close>, and \<open>NULL\<close> is returned although a line end was read.
\<close>

lemma lone_carriage_return_gives_no_line:
  "fz_read_line \<lparr>window = [], pos = 0, eof = False, avail = 0, source = [Data 13 []]\<rparr> 16
     = (Inr ([0], False),
        \<lparr>window = [], pos = 1, eof = True, avail = 0, source = []\<rparr>)"
  by (simp add: fz_read_line_def read_line_loop.simps fz_read_byte_def fz_peek_byte_def)




section \<open>Properties of seek without the native capability\<close>






end
